theory Spec2Isabelle
  imports Main "HOL-Library.Multiset"
begin

section \<open>The world outside the program\<close>

text \<open>
  \<^verbatim>\<open>download_nuscenes.py\<close> talks to three things it does not own: the local filesystem,
  the remote server, and the terminal. They are modelled as one record that every function
  takes and returns. Python exceptions are values of \<open>exn\<close>; a call that can raise returns
  \<open>exn + 'a\<close> with \<open>Inl\<close> for the exception that leaves the function.
\<close>

type_synonym bytes = "char list"

text \<open>
  The three exception classes that the calls of \<^verbatim>\<open>download_file\<close> can raise:
  \<open>RequestException\<close> stands for \<^verbatim>\<open>requests.exceptions.RequestException\<close> and its
  subclasses (connection error, timeout, \<^verbatim>\<open>HTTPError\<close> of \<^verbatim>\<open>raise_for_status\<close>, a
  stream broken while it is read); \<open>OSError\<close> for the errors of \<^verbatim>\<open>os.makedirs\<close>,
  \<^verbatim>\<open>open\<close> and \<^verbatim>\<open>f.write\<close> (permission denied, disk full), which are not subclasses of
  \<^verbatim>\<open>RequestException\<close>; \<open>ValueError\<close> for \<^verbatim>\<open>int()\<close> on a header that is not a number
  and for \<^verbatim>\<open>task_done()\<close> called too often.
\<close>

datatype exn = RequestException | OSError | ValueError

text \<open>
  The \<^verbatim>\<open>Content-Length\<close> header as \<^verbatim>\<open>int(r.headers.get('content-length', 0))\<close> reads
  it: absent (the default 0 is used), a number, or text on which \<^verbatim>\<open>int()\<close> raises.
\<close>

datatype content_length = Absent | Declared int | Malformed

text \<open>
  How the body of a streamed response ends under \<^verbatim>\<open>r.iter_content\<close>: the iterator is
  exhausted, or it raises a \<^verbatim>\<open>RequestException\<close> (connection reset, read timeout) after
  the chunks delivered so far.
\<close>

datatype stream_end = Exhausted | Broken

record response =
  status_code :: int
  clen :: content_length
  chunks :: "bytes list"
  ending :: stream_end

text \<open>\<^verbatim>\<open>requests.get\<close> either raises before there is a response or returns one.\<close>

datatype reply = No_Response | Reply response

text \<open>The progress bar of \<^verbatim>\<open>tqdm(total=..., initial=..., desc=...)\<close>; \<open>n\<close> is its counter.\<close>

record pbar =
  desc :: string
  total :: int
  initial :: int
  n :: int

text \<open>
  What reaches the terminal and the clock, in order. The texts of the \<^verbatim>\<open>print\<close> calls
  are not ASCII, so each call is one constructor carrying the values it formats:
  line 29 (a partial file was found), line 58 (finished), line 62 (the error message of the
  \<^verbatim>\<open>except\<close> clause), line 96 (the thread count of a dispatch round), line 150 (the
  number of a retry and of the URLs it retries), and \<^verbatim>\<open>time.sleep\<close> of line 152.
\<close>

datatype event =
    Print_resume string int
  | Print_done string
  | Print_error string
  | Print_threads int
  | Print_retry int int
  | Sleep nat

text \<open>
  The world. \<open>files\<close> maps a path to the content of the regular file there.
  \<open>makedirs_raises d\<close> and \<open>open_raises p\<close> say whether \<^verbatim>\<open>os.makedirs(d, exist_ok=True)\<close>
  and \<^verbatim>\<open>open(p, 'ab')\<close> raise \<^verbatim>\<open>OSError\<close> (permission denied and the like); the directory
  tree itself is not tracked. \<open>disk_free\<close> is the number of bytes that can still be written:
  a write that needs more fills the disk and raises. \<open>server k url headers\<close> is the answer
  to the request when \<open>k\<close> requests have been sent before it, so that a server may fail
  first and succeed later. \<open>sent\<close> logs the requests, \<open>bars\<close> the progress bars when they
  are closed, \<open>trace\<close> the terminal output and the sleeps, and \<open>calls\<close> every finished
  call of \<^verbatim>\<open>download_file\<close> by a worker, with its URL and how it ended.
\<close>

record world =
  files :: "string \<rightharpoonup> bytes"
  makedirs_raises :: "string \<Rightarrow> bool"
  open_raises :: "string \<Rightarrow> bool"
  disk_free :: nat
  server :: "nat \<Rightarrow> string \<Rightarrow> (string \<rightharpoonup> string) \<Rightarrow> reply"
  sent :: "(string \<times> (string \<rightharpoonup> string)) list"
  bars :: "pbar list"
  trace :: "event list"
  calls :: "(string \<times> (exn + bool)) list"

definition emit :: "event \<Rightarrow> world \<Rightarrow> world" where
  "emit e w = w\<lparr>trace := trace w @ [e]\<rparr>"

section \<open>Library functions used by the program\<close>

text \<open>\<^verbatim>\<open>url.split('/')[-1]\<close>: the text after the last slash, the whole text without one.\<close>

fun last_segment :: "string \<Rightarrow> string \<Rightarrow> string" where
  "last_segment acc [] = acc"
| "last_segment acc (c # cs) =
     (if c = CHR ''/'' then last_segment [] cs else last_segment (acc @ [c]) cs)"

definition split_last :: "string \<Rightarrow> string" where
  "split_last url = last_segment [] url"

text \<open>
  \<^verbatim>\<open>os.path.join(a, b)\<close> of \<^verbatim>\<open>posixpath\<close>: \<open>b\<close> alone when it starts with a slash or
  \<open>a\<close> is empty, no second slash when \<open>a\<close> ends with one.
\<close>

definition path_join :: "string \<Rightarrow> string \<Rightarrow> string" where
  "path_join a b =
     (if (b \<noteq> [] \<and> hd b = CHR ''/'') \<or> a = [] then b
      else if last a = CHR ''/'' then a @ b
      else a @ ''/'' @ b)"

text \<open>Decimal text of an integer, as an f-string formats it.\<close>

definition digit :: "nat \<Rightarrow> char" where
  "digit d = ''0123456789'' ! d"

fun str_nat :: "nat \<Rightarrow> string" where
  "str_nat k = (if k < 10 then [digit k] else str_nat (k div 10) @ [digit (k mod 10)])"

declare str_nat.simps [simp del]

definition str_int :: "int \<Rightarrow> string" where
  "str_int i = (if i < 0 then CHR ''-'' # str_nat (nat (- i)) else str_nat (nat i))"

text \<open>
  \<^verbatim>\<open>r.raise_for_status()\<close> raises \<^verbatim>\<open>HTTPError\<close> for the status codes 400 to 599.
\<close>

definition raise_for_status :: "response \<Rightarrow> bool" where
  "raise_for_status r \<longleftrightarrow> 400 \<le> status_code r \<and> status_code r < 600"

section \<open>download\_file\<close>

text \<open>Lines 26 to 28: the size of the file at the target path, 0 when there is none.\<close>

definition resume_pos :: "world \<Rightarrow> string \<Rightarrow> int" where
  "resume_pos w save_path =
     (case files w save_path of None \<Rightarrow> 0 | Some old \<Rightarrow> int (length old))"

text \<open>Lines 32 to 34: the request headers.\<close>

definition range_headers :: "int \<Rightarrow> (string \<rightharpoonup> string)" where
  "range_headers resume_byte_pos =
     (if resume_byte_pos > 0
      then Map.empty(''Range'' \<mapsto> ''bytes='' @ str_int resume_byte_pos @ ''-'')
      else Map.empty)"

text \<open>Line 42. \<open>None\<close> is the \<^verbatim>\<open>ValueError\<close> of \<^verbatim>\<open>int()\<close>.\<close>

definition total_size :: "response \<Rightarrow> int \<Rightarrow> int option" where
  "total_size r resume_byte_pos =
     (case clen r of
        Absent \<Rightarrow> Some (0 + resume_byte_pos)
      | Declared l \<Rightarrow> Some (l + resume_byte_pos)
      | Malformed \<Rightarrow> None)"

text \<open>
  \<^verbatim>\<open>f.write(chunk)\<close> on a file opened with \<^verbatim>\<open>'ab'\<close>: the bytes go to the end of the
  file. When the disk has less room than the chunk needs, what fits is written and
  \<^verbatim>\<open>OSError\<close> is raised (the flag of the result).
\<close>

definition write_chunk :: "string \<Rightarrow> bytes \<Rightarrow> world \<Rightarrow> bool \<times> world" where
  "write_chunk save_path chunk w =
     (let old = (case files w save_path of None \<Rightarrow> [] | Some b \<Rightarrow> b);
          fits = take (disk_free w) chunk
      in (length chunk > disk_free w,
          w\<lparr>files := (files w)(save_path \<mapsto> old @ fits),
            disk_free := disk_free w - length fits\<rparr>))"

text \<open>
  Lines 53 to 56, the loop over \<^verbatim>\<open>r.iter_content\<close>: an empty chunk is skipped, any other
  is written and moves the bar. The result is the exception that ended the loop, if any,
  with the world and the bar as they are then.
\<close>

fun write_chunks :: "string \<Rightarrow> bytes list \<Rightarrow> world \<Rightarrow> pbar \<Rightarrow> exn option \<times> world \<times> pbar" where
  "write_chunks save_path [] w bar = (None, w, bar)"
| "write_chunks save_path (chunk # rest) w bar =
     (if chunk = [] then write_chunks save_path rest w bar
      else (case write_chunk save_path chunk w of
              (True, w') \<Rightarrow> (Some OSError, w', bar)
            | (False, w') \<Rightarrow>
                write_chunks save_path rest w' (bar\<lparr>n := n bar + int (length chunk)\<rparr>)))"

text \<open>
  \<^verbatim>\<open>open(save_path, 'ab')\<close> when it does not raise: the file is made, empty, when there
  is none; one that is there keeps its bytes.
\<close>

definition open_ab :: "string \<Rightarrow> world \<Rightarrow> world" where
  "open_ab save_path w =
     (case files w save_path of
        None \<Rightarrow> w\<lparr>files := (files w)(save_path \<mapsto> [])\<rparr>
      | Some _ \<Rightarrow> w)"

text \<open>
  Lines 45 to 56: open the file for appending, open the bar, run the loop, and close both
  on every way out. A stream that breaks raises \<^verbatim>\<open>RequestException\<close> out of the loop
  after its last chunk.
\<close>

definition receive :: "string \<Rightarrow> string \<Rightarrow> response \<Rightarrow> int \<Rightarrow> int \<Rightarrow> world \<Rightarrow> exn option \<times> world" where
  "receive save_path filename r expected resume_byte_pos w =
     (if open_raises w save_path then (Some OSError, w)
      else
        let bar = \<lparr>desc = filename, total = expected, initial = resume_byte_pos,
                   n = resume_byte_pos\<rparr>
        in (case write_chunks save_path (chunks r) (open_ab save_path w) bar of
              (Some e, w2, bar') \<Rightarrow> (Some e, w2\<lparr>bars := bars w2 @ [bar']\<rparr>)
            | (None, w2, bar') \<Rightarrow>
                (if ending r = Broken then Some RequestException else None,
                 w2\<lparr>bars := bars w2 @ [bar']\<rparr>)))"

text \<open>
  Lines 36 to 63, the \<^verbatim>\<open>try\<close> statement: the request, the status check, the total
  size, the transfer. Only \<^verbatim>\<open>requests.exceptions.RequestException\<close> has a handler, which
  prints and returns \<^verbatim>\<open>False\<close>; any other exception leaves the function.
\<close>

definition attempt :: "string \<Rightarrow> string \<Rightarrow> string \<Rightarrow> int \<Rightarrow> (string \<rightharpoonup> string) \<Rightarrow> world \<Rightarrow> (exn + bool) \<times> world" where
  "attempt url save_path filename resume_byte_pos headers w =
     (let w1 = w\<lparr>sent := sent w @ [(url, headers)]\<rparr> in
      case server w (length (sent w)) url headers of
        No_Response \<Rightarrow> (Inr False, emit (Print_error filename) w1)
      | Reply r \<Rightarrow>
          if raise_for_status r then (Inr False, emit (Print_error filename) w1)
          else (case total_size r resume_byte_pos of
                  None \<Rightarrow> (Inl ValueError, w1)
                | Some t \<Rightarrow>
                    (case receive save_path filename r t resume_byte_pos w1 of
                       (Some RequestException, w2) \<Rightarrow> (Inr False, emit (Print_error filename) w2)
                     | (Some e, w2) \<Rightarrow> (Inl e, w2)
                     | (None, w2) \<Rightarrow> (Inr True, emit (Print_done filename) w2))))"

text \<open>
  \<^verbatim>\<open>download_file(url, save_dir)\<close>. \<^verbatim>\<open>os.makedirs\<close> stands before the \<^verbatim>\<open>try\<close>, so its
  error leaves the function as well. The chunk size only decides how the server's bytes
  are cut into chunks, which the response already fixes.
\<close>

definition download_file :: "string \<Rightarrow> string \<Rightarrow> world \<Rightarrow> (exn + bool) \<times> world" where
  "download_file url save_dir w =
     (if makedirs_raises w save_dir then (Inl OSError, w)
      else
        let filename = split_last url;
            save_path = path_join save_dir filename;
            resume_byte_pos = resume_pos w save_path;
            w1 = (if files w save_path \<noteq> None
                  then emit (Print_resume filename resume_byte_pos) w else w);
            headers = range_headers resume_byte_pos
        in attempt url save_path filename resume_byte_pos headers w1)"

section \<open>worker and download\_files\_in\_parallel\<close>

text \<open>
  The threads of one dispatch round share the two queues and nothing else. Each thread
  runs \<^verbatim>\<open>worker\<close>; where it stands is its program counter:
  \<^item> \<open>At_test\<close>: before the test \<^verbatim>\<open>queue.empty()\<close> of line 67;
  \<^item> \<open>At_get\<close>: the test found a task, before \<^verbatim>\<open>queue.get()\<close> of line 68, which blocks
    while the queue is empty;
  \<^item> \<open>At_call url\<close>: before \<^verbatim>\<open>download_file(url, save_dir)\<close> of line 70;
  \<^item> \<open>At_put url\<close>: the call returned \<^verbatim>\<open>False\<close>, before \<^verbatim>\<open>failed_queue.put(url)\<close>;
  \<^item> \<open>At_task_done e\<close>: in the \<^verbatim>\<open>finally\<close> clause before \<^verbatim>\<open>queue.task_done()\<close>,
    with the exception \<open>e\<close> of the call still to be raised again, if there is one;
  \<^item> \<open>Returned\<close>: the loop was left; \<open>Died e\<close>: the exception ended the thread.
\<close>

datatype pc =
    At_test
  | At_get
  | At_call string
  | At_put string
  | At_task_done "exn option"
  | Returned
  | Died exn

text \<open>
  The shared state of a round: the two \<^verbatim>\<open>Queue\<close> objects (\<open>unfinished_tasks\<close> is the
  counter that \<^verbatim>\<open>put\<close> raises, \<^verbatim>\<open>task_done\<close> lowers and \<^verbatim>\<open>join\<close> waits for) and
  the threads.
\<close>

record pool =
  queue :: "string list"
  unfinished_tasks :: nat
  failed_queue :: "string list"
  threads :: "pc list"

text \<open>
  One atomic step of thread \<open>i\<close>. A thread that cannot move (blocked in \<^verbatim>\<open>get\<close>,
  finished, or not there) leaves the state as it is. A call of \<^verbatim>\<open>download_file\<close> is
  taken as one step: in the program the calls of different threads overlap in time, but
  they share no variable of the program, and what is proved of a round is about which
  calls are made and what they return. \<^verbatim>\<open>task_done()\<close> raises \<^verbatim>\<open>ValueError\<close> when
  the counter is already 0.
\<close>

definition worker_step :: "string \<Rightarrow> nat \<Rightarrow> world \<times> pool \<Rightarrow> world \<times> pool" where
  "worker_step save_dir i ws =
     (case ws of (w, s) \<Rightarrow>
        if i \<ge> length (threads s) then (w, s)
        else (case threads s ! i of
            At_test \<Rightarrow>
              (w, s\<lparr>threads := (threads s)[i := (if queue s = [] then Returned else At_get)]\<rparr>)
          | At_get \<Rightarrow>
              (case queue s of
                 [] \<Rightarrow> (w, s)
               | url # rest \<Rightarrow> (w, s\<lparr>queue := rest, threads := (threads s)[i := At_call url]\<rparr>))
          | At_call url \<Rightarrow>
              (case download_file url save_dir w of
                 (success, w') \<Rightarrow>
                   (w'\<lparr>calls := calls w' @ [(url, success)]\<rparr>,
                    s\<lparr>threads := (threads s)[i :=
                        (case success of
                           Inl e \<Rightarrow> At_task_done (Some e)
                         | Inr True \<Rightarrow> At_task_done None
                         | Inr False \<Rightarrow> At_put url)]\<rparr>))
          | At_put url \<Rightarrow>
              (w, s\<lparr>failed_queue := failed_queue s @ [url],
                    threads := (threads s)[i := At_task_done None]\<rparr>)
          | At_task_done e \<Rightarrow>
              (if unfinished_tasks s = 0
               then (w, s\<lparr>threads := (threads s)[i := Died ValueError]\<rparr>)
               else (w, s\<lparr>unfinished_tasks := unfinished_tasks s - 1,
                         threads := (threads s)[i :=
                           (case e of None \<Rightarrow> At_test | Some x \<Rightarrow> Died x)]\<rparr>))
          | Returned \<Rightarrow> (w, s)
          | Died e \<Rightarrow> (w, s)))"

text \<open>
  Lines 86 to 101: fill the queue, print the thread count, start the threads.
  \<^verbatim>\<open>range(thread_count)\<close> is empty for a count below 1, which \<open>nat\<close> gives as well.
\<close>

definition start_round :: "string list \<Rightarrow> int \<Rightarrow> world \<Rightarrow> world \<times> pool" where
  "start_round urls max_threads w =
     (let thread_count = min max_threads (int (length urls))
      in (emit (Print_threads thread_count) w,
          \<lparr>queue = urls, unfinished_tasks = length urls, failed_queue = [],
           threads = replicate (nat thread_count) At_test\<rparr>))"

text \<open>
  Line 104, \<^verbatim>\<open>queue.join()\<close>: the main thread waits until the counter is 0 while the
  workers run. The schedule is the order in which the threads take their steps; it is the
  only source of nondeterminism, and a property of the program is one of every schedule.
  A schedule that ends before the counter is 0 gives \<open>None\<close>: the main thread is still
  waiting.
\<close>

fun join :: "string \<Rightarrow> nat list \<Rightarrow> world \<times> pool \<Rightarrow> (world \<times> pool) option" where
  "join save_dir [] ws = (if unfinished_tasks (snd ws) = 0 then Some ws else None)"
| "join save_dir (i # sched) ws =
     (if unfinished_tasks (snd ws) = 0 then Some ws
      else join save_dir sched (worker_step save_dir i ws))"

definition run_round :: "nat list \<Rightarrow> string list \<Rightarrow> string \<Rightarrow> int \<Rightarrow> world \<Rightarrow> (world \<times> pool) option" where
  "run_round sched urls save_dir max_threads w =
     join save_dir sched (start_round urls max_threads w)"

text \<open>
  \<^verbatim>\<open>download_files_in_parallel(urls, save_dir, max_threads)\<close>: after the join, lines 107
  to 111 move the failure queue into the list that is returned, first in first out.
\<close>

definition download_files_in_parallel :: "nat list \<Rightarrow> string list \<Rightarrow> string \<Rightarrow> int \<Rightarrow> world \<Rightarrow> (string list \<times> world) option" where
  "download_files_in_parallel sched urls save_dir max_threads w =
     (case run_round sched urls save_dir max_threads w of
        None \<Rightarrow> None
      | Some (w', s) \<Rightarrow> Some (failed_queue s, w'))"

section \<open>main\<close>

text \<open>
  Lines 144 to 152, the retry loop over \<^verbatim>\<open>range(retry_count)\<close>, which is the list
  \<open>[0, 1, 2]\<close> for \<^verbatim>\<open>retry_count = 3\<close>. \<open>scheds k\<close> is the schedule of dispatch round
  \<open>k\<close>; the first dispatch is round 0 and iteration \<open>i\<close> runs round \<open>i + 1\<close>.
\<close>

fun retry :: "(nat \<Rightarrow> nat list) \<Rightarrow> string \<Rightarrow> int \<Rightarrow> nat list \<Rightarrow> string list \<times> world \<Rightarrow> (string list \<times> world) option" where
  "retry scheds save_dir threads_arg [] (failed_urls, w) = Some (failed_urls, w)"
| "retry scheds save_dir threads_arg (i # rest) (failed_urls, w) =
     (if failed_urls = [] then Some (failed_urls, w)
      else (case download_files_in_parallel (scheds (i + 1)) failed_urls save_dir threads_arg
                  (emit (Print_retry (int i + 1) (int (length failed_urls))) w) of
              None \<Rightarrow> None
            | Some (failed_urls', w') \<Rightarrow>
                retry scheds save_dir threads_arg rest (failed_urls', emit (Sleep 2) w')))"

text \<open>
  Lines 141 to 152 for any list of URLs: the first dispatch, then the retries. The banner
  of lines 137 to 139 and the report of lines 154 to 161 only print values that the result
  holds, and are left out.
\<close>

definition run :: "(nat \<Rightarrow> nat list) \<Rightarrow> string list \<Rightarrow> string \<Rightarrow> int \<Rightarrow> world \<Rightarrow> (string list \<times> world) option" where
  "run scheds urls save_dir threads_arg w =
     (case download_files_in_parallel (scheds 0) urls save_dir threads_arg w of
        None \<Rightarrow> None
      | Some fw \<Rightarrow> retry scheds save_dir threads_arg [0, 1, 2] fw)"

text \<open>The eleven archives of lines 123 to 135.\<close>

definition urls :: "string list" where
  "urls =
     [''https://motional-nuscenes.s3.amazonaws.com/public/v1.0/v1.0-trainval01_blobs.tgz'',
      ''https://motional-nuscenes.s3.amazonaws.com/public/v1.0/v1.0-trainval02_blobs.tgz'',
      ''https://motional-nuscenes.s3.amazonaws.com/public/v1.0/v1.0-trainval03_blobs.tgz'',
      ''https://motional-nuscenes.s3.amazonaws.com/public/v1.0/v1.0-trainval04_blobs.tgz'',
      ''https://motional-nuscenes.s3.amazonaws.com/public/v1.0/v1.0-trainval05_blobs.tgz'',
      ''https://motional-nuscenes.s3.amazonaws.com/public/v1.0/v1.0-trainval06_blobs.tgz'',
      ''https://motional-nuscenes.s3.amazonaws.com/public/v1.0/v1.0-trainval07_blobs.tgz'',
      ''https://motional-nuscenes.s3.amazonaws.com/public/v1.0/v1.0-trainval08_blobs.tgz'',
      ''https://motional-nuscenes.s3.amazonaws.com/public/v1.0/v1.0-trainval09_blobs.tgz'',
      ''https://motional-nuscenes.s3.amazonaws.com/public/v1.0/v1.0-trainval10_blobs.tgz'',
      ''https://d36yt3mvayqw5m.cloudfront.net/public/v1.0/v1.0-trainval_meta.tgz'']"

text \<open>
  \<^verbatim>\<open>main()\<close> with the two command line arguments, \<^verbatim>\<open>--save-dir\<close> and
  \<^verbatim>\<open>--threads\<close> (any integer).
\<close>

definition main :: "(nat \<Rightarrow> nat list) \<Rightarrow> string \<Rightarrow> int \<Rightarrow> world \<Rightarrow> (string list \<times> world) option" where
  "main scheds save_dir threads_arg w = run scheds urls save_dir threads_arg w"

section \<open>Worlds for the examples\<close>

text \<open>
  A quiet world: nothing on disk, room for 100 bytes, every directory and file may be
  written, and the server does not answer. The examples change it field by field.
\<close>

definition blank :: world where
  "blank = \<lparr>files = Map.empty, makedirs_raises = (\<lambda>_. False), open_raises = (\<lambda>_. False),
     disk_free = 100, server = (\<lambda>_ _ _. No_Response), sent = [], bars = [], trace = [],
     calls = []\<rparr>"


text \<open>The directory cannot be made: permission denied.\<close>

definition w_denied :: world where
  "w_denied = blank\<lparr>makedirs_raises := (\<lambda>_. True)\<rparr>"

text \<open>Responses to a range request: two more bytes, none, and four of which three arrive.\<close>

definition two_more :: response where
  "two_more = \<lparr>status_code = 206, clen = Declared 2, chunks = [''de''], ending = Exhausted\<rparr>"


definition cut_off :: response where
  "cut_off = \<lparr>status_code = 206, clen = Declared 4, chunks = [''de'', ''f''], ending = Broken\<rparr>"

text \<open>The server answers, but no file may be opened for writing.\<close>

definition w_readonly :: world where
  "w_readonly = blank\<lparr>open_raises := (\<lambda>_. True), server := (\<lambda>_ _ _. Reply two_more)\<rparr>"



text \<open>Three bytes are on disk and the connection breaks after three more.\<close>

definition w_broken :: world where
  "w_broken = blank\<lparr>files := [''d/a'' \<mapsto> ''abc''], server := (\<lambda>_ _ _. Reply cut_off)\<rparr>"

text \<open>A complete answer of two bytes.\<close>

definition whole :: response where
  "whole = \<lparr>status_code = 200, clen = Declared 2, chunks = [''xy''], ending = Exhausted\<rparr>"

text \<open>The server answers for \<^verbatim>\<open>http://h/x/b\<close> only.\<close>

definition w_mixed :: world where
  "w_mixed = blank\<lparr>server := (\<lambda>_ url _. if url = ''http://h/x/b'' then Reply whole else No_Response)\<rparr>"

text \<open>The server answers for every URL but \<^verbatim>\<open>http://h/x/c\<close>, in every round.\<close>

definition w_third_fails :: world where
  "w_third_fails = blank\<lparr>server := (\<lambda>_ url _. if url = ''http://h/x/c'' then No_Response else Reply whole)\<rparr>"

text \<open>Two threads that take turns, ten steps each, in every round.\<close>

definition round_robin :: "nat \<Rightarrow> nat list" where
  "round_robin k = [0, 1, 0, 1, 0, 1, 0, 1, 0, 1, 0, 1, 0, 1, 0, 1, 0, 1, 0, 1]"

text \<open>Thirteen sweeps over two threads.\<close>

definition thirteen_sweeps :: "nat list list" where
  "thirteen_sweeps =
     [[0, 1], [0, 1], [0, 1], [0, 1], [0, 1], [0, 1], [0, 1], [0, 1], [0, 1], [0, 1], [0, 1],
      [0, 1], [0, 1]]"

section \<open>Notions for the proofs\<close>

text \<open>
  The state after a schedule has run to its end, whether or not the main thread has
  returned from \<^verbatim>\<open>join\<close> on the way.
\<close>

definition steps :: "string \<Rightarrow> nat list \<Rightarrow> world \<times> pool \<Rightarrow> world \<times> pool" where
  "steps save_dir sched ws = foldl (\<lambda>ws i. worker_step save_dir i ws) ws sched"

text \<open>
  What a thread holds: a task that counts as unfinished (\<open>busy\<close>), a URL taken from the
  queue and not yet passed to \<^verbatim>\<open>download_file\<close> (\<open>claimed\<close>), a URL whose call has
  returned \<^verbatim>\<open>False\<close> and that is not yet in the failure queue (\<open>to_report\<close>).
\<close>

fun busy :: "pc \<Rightarrow> nat" where
  "busy (At_call _) = 1"
| "busy (At_put _) = 1"
| "busy (At_task_done _) = 1"
| "busy _ = 0"

fun claimed :: "pc \<Rightarrow> string multiset" where
  "claimed (At_call url) = {#url#}"
| "claimed _ = {#}"

fun to_report :: "pc \<Rightarrow> string multiset" where
  "to_report (At_put url) = {#url#}"
| "to_report _ = {#}"

text \<open>The thread after the call, by the result of the call (lines 70 to 72).\<close>

definition after_call :: "string \<Rightarrow> exn + bool \<Rightarrow> pc" where
  "after_call url success =
     (case success of
        Inl e \<Rightarrow> At_task_done (Some e)
      | Inr True \<Rightarrow> At_task_done None
      | Inr False \<Rightarrow> At_put url)"

text \<open>The URLs of the calls that returned \<^verbatim>\<open>False\<close>.\<close>

definition failures :: "(string \<times> (exn + bool)) list \<Rightarrow> string list" where
  "failures cs = map fst (filter (\<lambda>c. snd c = Inr False) cs)"

text \<open>
  The bookkeeping of a round, which every step keeps: with \<open>cs\<close> the calls made since the
  round began, each task is in the queue, with a thread, or in \<open>cs\<close>; the counter of
  unfinished tasks counts the queue and the busy threads; and the URLs of the failed calls
  are in the failure queue or on their way there.
\<close>

definition round_inv :: "(string \<times> (exn + bool)) list \<Rightarrow> string list \<Rightarrow> world \<times> pool \<Rightarrow> bool" where
  "round_inv before tasks ws \<longleftrightarrow>
     (\<exists>cs. calls (fst ws) = before @ cs
        \<and> mset tasks = mset (queue (snd ws)) + sum_list (map claimed (threads (snd ws))) + mset (map fst cs)
        \<and> unfinished_tasks (snd ws) = length (queue (snd ws)) + sum_list (map busy (threads (snd ws)))
        \<and> mset (failed_queue (snd ws)) + sum_list (map to_report (threads (snd ws))) = mset (failures cs))"



text \<open>
  For the proof that a round comes back from \<^verbatim>\<open>join\<close>: a thread can move unless it is
  blocked in \<^verbatim>\<open>get\<close> on an empty queue or has ended; every move lowers the potential,
  which counts five for a task in the queue and what is left to do for a thread.
\<close>

fun weight :: "pc \<Rightarrow> nat" where
  "weight (At_call _) = 4"
| "weight (At_put _) = 3"
| "weight (At_task_done _) = 2"
| "weight At_test = 1"
| "weight _ = 0"

definition potential :: "world \<times> pool \<Rightarrow> nat" where
  "potential ws = 5 * length (queue (snd ws)) + sum_list (map weight (threads (snd ws)))"

fun is_died :: "pc \<Rightarrow> bool" where
  "is_died (Died _) = True"
| "is_died _ = False"

definition can_move :: "nat \<Rightarrow> world \<times> pool \<Rightarrow> bool" where
  "can_move i ws \<longleftrightarrow>
     i < length (threads (snd ws))
     \<and> (case threads (snd ws) ! i of
          At_get \<Rightarrow> queue (snd ws) \<noteq> []
        | Returned \<Rightarrow> False
        | Died _ \<Rightarrow> False
        | _ \<Rightarrow> True)"

text \<open>While the queue holds a task, no thread has left its loop.\<close>

definition none_left :: "world \<times> pool \<Rightarrow> bool" where
  "none_left ws \<longleftrightarrow> (queue (snd ws) \<noteq> [] \<longrightarrow> Returned \<notin> set (threads (snd ws)))"

section \<open>What a call of download\_file leaves alone\<close>

lemma write_chunk_frame:
  "write_chunk p c w = (b, w') \<Longrightarrow>
     sent w' = sent w \<and> bars w' = bars w \<and> trace w' = trace w \<and> server w' = server w
     \<and> makedirs_raises w' = makedirs_raises w \<and> open_raises w' = open_raises w
     \<and> calls w' = calls w"
  by (auto simp: write_chunk_def Let_def)

lemma write_chunks_frame:
  "write_chunks p cs w bar = (e, w', bar') \<Longrightarrow>
     sent w' = sent w \<and> bars w' = bars w \<and> trace w' = trace w \<and> server w' = server w
     \<and> makedirs_raises w' = makedirs_raises w \<and> open_raises w' = open_raises w
     \<and> calls w' = calls w"
proof (induction cs arbitrary: w bar)
  case Nil
  then show ?case by simp
next
  case (Cons c cs)
  show ?case
  proof (cases "c = []")
    case True
    with Cons show ?thesis by simp
  next
    case False
    obtain b w1 where wc: "write_chunk p c w = (b, w1)" by (cases "write_chunk p c w")
    note fr = write_chunk_frame [OF wc]
    show ?thesis
    proof (cases b)
      case True
      with Cons.prems False wc fr show ?thesis by simp
    next
      case nb: False
      with Cons.prems False wc
      have "write_chunks p cs w1 (bar\<lparr>n := n bar + int (length c)\<rparr>) = (e, w', bar')" by simp
      from Cons.IH [OF this] fr show ?thesis by simp
    qed
  qed
qed

lemma write_chunk_files:
  assumes "write_chunk p c w = (b, w')"
  shows "files w' = (files w)(p \<mapsto> (case files w p of None \<Rightarrow> [] | Some old \<Rightarrow> old) @ take (disk_free w) c)"
    and "disk_free w' = disk_free w - length (take (disk_free w) c)"
    and "b \<longleftrightarrow> disk_free w < length c"
  using assms by (auto simp: write_chunk_def Let_def)

lemma write_chunks_other:
  "write_chunks p cs w bar = (e, w', bar') \<Longrightarrow> q \<noteq> p \<Longrightarrow> files w' q = files w q"
proof (induction cs arbitrary: w bar)
  case Nil
  then show ?case by simp
next
  case (Cons c cs)
  show ?case
  proof (cases "c = []")
    case True
    with Cons show ?thesis by simp
  next
    case False
    obtain b w1 where wc: "write_chunk p c w = (b, w1)" by (cases "write_chunk p c w")
    from write_chunk_files(1) [OF wc] Cons.prems(2) have o: "files w1 q = files w q" by simp
    show ?thesis
    proof (cases b)
      case True
      with Cons.prems False wc o show ?thesis by simp
    next
      case nb: False
      with Cons.prems False wc
      have "write_chunks p cs w1 (bar\<lparr>n := n bar + int (length c)\<rparr>) = (e, w', bar')" by simp
      from Cons.IH [OF this Cons.prems(2)] o show ?thesis by simp
    qed
  qed
qed

lemma write_chunks_appends:
  "write_chunks p cs w bar = (e, w', bar') \<Longrightarrow> files w p = Some old \<Longrightarrow>
     \<exists>new. files w' p = Some (old @ new)"
proof (induction cs arbitrary: w bar old)
  case Nil
  then show ?case by simp
next
  case (Cons c cs)
  show ?case
  proof (cases "c = []")
    case True
    with Cons show ?thesis by simp
  next
    case False
    obtain b w1 where wc: "write_chunk p c w = (b, w1)" by (cases "write_chunk p c w")
    from write_chunk_files(1) [OF wc] Cons.prems(2)
    have o: "files w1 p = Some (old @ take (disk_free w) c)" by simp
    show ?thesis
    proof (cases b)
      case True
      with Cons.prems False wc have "w' = w1" by simp
      with o show ?thesis by (intro exI) simp
    next
      case nb: False
      with Cons.prems False wc
      have "write_chunks p cs w1 (bar\<lparr>n := n bar + int (length c)\<rparr>) = (e, w', bar')" by simp
      from Cons.IH [OF this o] obtain new where "files w' p = Some ((old @ take (disk_free w) c) @ new)"
        by (elim exE)
      then have "files w' p = Some (old @ (take (disk_free w) c @ new))" by simp
      then show ?thesis by (rule exI)
    qed
  qed
qed

lemma write_chunks_fits:
  "length (concat cs) \<le> disk_free w \<Longrightarrow> files w p = Some old \<Longrightarrow>
   write_chunks p cs w bar =
     (None,
      w\<lparr>files := (files w)(p \<mapsto> old @ concat cs),
        disk_free := disk_free w - length (concat cs)\<rparr>,
      bar\<lparr>n := n bar + int (length (concat cs))\<rparr>)"
proof (induction cs arbitrary: w bar old)
  case Nil
  from Nil(2) have "(files w)(p \<mapsto> old) = files w" by (rule fun_upd_idem)
  then show ?case by simp
next
  case (Cons c cs)
  show ?case
  proof (cases "c = []")
    case True
    with Cons show ?thesis by simp
  next
    case False
    let ?w1 = "w\<lparr>files := (files w)(p \<mapsto> old @ c), disk_free := disk_free w - length c\<rparr>"
    from Cons.prems have le: "length c \<le> disk_free w" by simp
    with Cons.prems(2) have wc: "write_chunk p c w = (False, ?w1)"
      by (simp add: write_chunk_def Let_def)
    from Cons.prems have 1: "length (concat cs) \<le> disk_free ?w1" by simp
    have 2: "files ?w1 p = Some (old @ c)" by simp
    have 3: "?w1\<lparr>files := (files ?w1)(p \<mapsto> (old @ c) @ concat cs),
                 disk_free := disk_free ?w1 - length (concat cs)\<rparr> =
             w\<lparr>files := (files w)(p \<mapsto> old @ concat (c # cs)),
               disk_free := disk_free w - length (concat (c # cs))\<rparr>"
      by simp
    have 4: "bar\<lparr>n := n bar + int (length c)\<rparr>\<lparr>n := n (bar\<lparr>n := n bar + int (length c)\<rparr>) + int (length (concat cs))\<rparr>
           = bar\<lparr>n := n bar + int (length (concat (c # cs)))\<rparr>"
      by simp
    have "write_chunks p (c # cs) w bar = write_chunks p cs ?w1 (bar\<lparr>n := n bar + int (length c)\<rparr>)"
      using False wc by simp
    also note Cons.IH [OF 1 2, of "bar\<lparr>n := n bar + int (length c)\<rparr>"]
    finally show ?thesis unfolding 3 4 .
  qed
qed



lemma emit_fields [simp]:
  "files (emit e w) = files w" "sent (emit e w) = sent w" "server (emit e w) = server w"
  "makedirs_raises (emit e w) = makedirs_raises w" "open_raises (emit e w) = open_raises w"
  "disk_free (emit e w) = disk_free w" "bars (emit e w) = bars w" "calls (emit e w) = calls w"
  "trace (emit e w) = trace w @ [e]"
  by (simp_all add: emit_def)

lemma open_ab_fields [simp]:
  "sent (open_ab p w) = sent w" "server (open_ab p w) = server w"
  "makedirs_raises (open_ab p w) = makedirs_raises w" "open_raises (open_ab p w) = open_raises w"
  "disk_free (open_ab p w) = disk_free w" "bars (open_ab p w) = bars w" "calls (open_ab p w) = calls w"
  "trace (open_ab p w) = trace w"
  by (simp_all add: open_ab_def split: option.splits)

lemma open_ab_files:
  "files (open_ab p w) p = Some (case files w p of None \<Rightarrow> [] | Some old \<Rightarrow> old)"
  "q \<noteq> p \<Longrightarrow> files (open_ab p w) q = files w q"
  by (simp_all add: open_ab_def split: option.splits)

lemma receive_unfold:
  assumes "\<not> open_raises w p"
    and "write_chunks p (chunks r) (open_ab p w) \<lparr>desc = f, total = t, initial = k, n = k\<rparr> = (x, w2, bar')"
  shows "receive p f r t k w =
           (case x of Some e \<Rightarrow> Some e
                    | None \<Rightarrow> if ending r = Broken then Some RequestException else None,
            w2\<lparr>bars := bars w2 @ [bar']\<rparr>)"
  using assms by (cases x) (simp_all add: receive_def Let_def open_ab_def)

lemma receive_appends:
  assumes "receive p f r t k w = (e, w')" and "files w q = Some old"
  shows "\<exists>new. files w' q = Some (old @ new)"
proof (cases "open_raises w p")
  case True
  with assms have "w' = w" by (simp add: receive_def)
  with assms(2) show ?thesis by (intro exI [of _ "[]"]) simp
next
  case False
  obtain x w2 bar' where wc:
    "write_chunks p (chunks r) (open_ab p w) \<lparr>desc = f, total = t, initial = k, n = k\<rparr> = (x, w2, bar')"
    by (cases "write_chunks p (chunks r) (open_ab p w) \<lparr>desc = f, total = t, initial = k, n = k\<rparr>")
  from receive_unfold [OF False wc] assms(1) have w': "w' = w2\<lparr>bars := bars w2 @ [bar']\<rparr>" by simp
  show ?thesis
  proof (cases "q = p")
    case True
    with assms(2) open_ab_files(1) [of p w] have "files (open_ab p w) p = Some old" by simp
    from write_chunks_appends [OF wc this] True w' show ?thesis by simp
  next
    case False
    from write_chunks_other [OF wc False] open_ab_files(2) [OF False] assms(2) w'
    show ?thesis by (intro exI [of _ "[]"]) simp
  qed
qed


lemma receive_fits:
  assumes "\<not> open_raises w p" and "length (concat (chunks r)) \<le> disk_free w"
  shows "receive p f r t k w =
           (if ending r = Broken then Some RequestException else None,
            w\<lparr>files := (files w)(p \<mapsto> (case files w p of None \<Rightarrow> [] | Some old \<Rightarrow> old) @ concat (chunks r)),
              disk_free := disk_free w - length (concat (chunks r)),
              bars := bars w @ [\<lparr>desc = f, total = t, initial = k,
                                 n = k + int (length (concat (chunks r)))\<rparr>]\<rparr>)"
proof -
  let ?old = "case files w p of None \<Rightarrow> [] | Some old \<Rightarrow> old"
  from assms(2) have 1: "length (concat (chunks r)) \<le> disk_free (open_ab p w)" by simp
  note wc = write_chunks_fits [OF 1 open_ab_files(1), of "\<lparr>desc = f, total = t, initial = k, n = k\<rparr>"]
  have 2: "(files (open_ab p w))(p \<mapsto> ?old @ concat (chunks r)) = (files w)(p \<mapsto> ?old @ concat (chunks r))"
    by (simp add: open_ab_def split: option.splits)
  have 3: "open_ab p w\<lparr>files := (files w)(p \<mapsto> ?old @ concat (chunks r)),
             disk_free := disk_free w - length (concat (chunks r))\<rparr>
           = w\<lparr>files := (files w)(p \<mapsto> ?old @ concat (chunks r)),
             disk_free := disk_free w - length (concat (chunks r))\<rparr>"
    by (simp add: open_ab_def split: option.splits)
  from receive_unfold [OF assms(1) wc] show ?thesis
    unfolding 2 open_ab_fields 3 by simp
qed


lemma receive_frame:
  assumes "receive p f r t k w = (e, w')"
  shows "sent w' = sent w \<and> trace w' = trace w \<and> server w' = server w
     \<and> makedirs_raises w' = makedirs_raises w \<and> open_raises w' = open_raises w
     \<and> calls w' = calls w"
proof (cases "open_raises w p")
  case True
  with assms show ?thesis by (simp add: receive_def)
next
  case False
  obtain x w2 bar' where wc:
    "write_chunks p (chunks r) (open_ab p w) \<lparr>desc = f, total = t, initial = k, n = k\<rparr> = (x, w2, bar')"
    by (cases "write_chunks p (chunks r) (open_ab p w) \<lparr>desc = f, total = t, initial = k, n = k\<rparr>")
  from receive_unfold [OF False wc] assms have "w' = w2\<lparr>bars := bars w2 @ [bar']\<rparr>" by simp
  with write_chunks_frame [OF wc] show ?thesis by simp
qed




section \<open>How a call of download\_file can go\<close>

lemma attempt_no_response:
  "server w (length (sent w)) url h = No_Response \<Longrightarrow>
   attempt url p f k h w = (Inr False, emit (Print_error f) (w\<lparr>sent := sent w @ [(url, h)]\<rparr>))"
  by (simp add: attempt_def Let_def)

lemma attempt_bad_status:
  "server w (length (sent w)) url h = Reply r \<Longrightarrow> raise_for_status r \<Longrightarrow>
   attempt url p f k h w = (Inr False, emit (Print_error f) (w\<lparr>sent := sent w @ [(url, h)]\<rparr>))"
  by (simp add: attempt_def Let_def)

lemma attempt_malformed:
  "server w (length (sent w)) url h = Reply r \<Longrightarrow> \<not> raise_for_status r \<Longrightarrow> clen r = Malformed \<Longrightarrow>
   attempt url p f k h w = (Inl ValueError, w\<lparr>sent := sent w @ [(url, h)]\<rparr>)"
  by (simp add: attempt_def Let_def total_size_def)

lemma attempt_receive:
  assumes "server w (length (sent w)) url h = Reply r" and "\<not> raise_for_status r"
    and "total_size r k = Some t"
    and "receive p f r t k (w\<lparr>sent := sent w @ [(url, h)]\<rparr>) = (e, w2)"
  shows "attempt url p f k h w =
           (case e of
              None \<Rightarrow> (Inr True, emit (Print_done f) w2)
            | Some RequestException \<Rightarrow> (Inr False, emit (Print_error f) w2)
            | Some OSError \<Rightarrow> (Inl OSError, w2)
            | Some ValueError \<Rightarrow> (Inl ValueError, w2))"
  using assms by (simp add: attempt_def Let_def split: option.splits exn.splits)

lemma total_size_cases:
  "clen r \<noteq> Malformed \<Longrightarrow> \<exists>t. total_size r k = Some t"
  "clen r = Declared l \<Longrightarrow> total_size r k = Some (l + k)"
  by (simp_all add: total_size_def split: content_length.splits)

text \<open>The four ways a call of attempt can go, for case analysis.\<close>

lemma attempt_cases:
  obtains
    (no_response) "server w (length (sent w)) url h = No_Response"
  | (bad_status) r where "server w (length (sent w)) url h = Reply r" "raise_for_status r"
  | (malformed) r where "server w (length (sent w)) url h = Reply r" "\<not> raise_for_status r"
      "clen r = Malformed"
  | (received) r t e w2 where "server w (length (sent w)) url h = Reply r" "\<not> raise_for_status r"
      "clen r \<noteq> Malformed" "total_size r k = Some t"
      "receive p f r t k (w\<lparr>sent := sent w @ [(url, h)]\<rparr>) = (e, w2)"
proof (cases "server w (length (sent w)) url h")
  case No_Response
  then show ?thesis by (rule no_response)
next
  case (Reply r)
  show ?thesis
  proof (cases "raise_for_status r")
    case True
    with Reply show ?thesis by (rule bad_status)
  next
    case nr: False
    show ?thesis
    proof (cases "clen r = Malformed")
      case True
      with Reply nr show ?thesis by (rule malformed)
    next
      case False
      from total_size_cases(1) [OF False] obtain t where t: "total_size r k = Some t" by blast
      obtain e w2 where "receive p f r t k (w\<lparr>sent := sent w @ [(url, h)]\<rparr>) = (e, w2)"
        by (cases "receive p f r t k (w\<lparr>sent := sent w @ [(url, h)]\<rparr>)")
      with Reply nr False t show ?thesis by (rule received)
    qed
  qed
qed

lemma attempt_not_request_exception:
  "fst (attempt url p f k h w) \<noteq> Inl RequestException"
proof (cases rule: attempt_cases [where w=w and url=url and h=h and k=k and p=p and f=f])
  case no_response
  then show ?thesis by (simp add: attempt_no_response)
next
  case (bad_status r)
  then show ?thesis by (simp add: attempt_bad_status)
next
  case (malformed r)
  then show ?thesis by (simp add: attempt_malformed)
next
  case (received r t e w2)
  from attempt_receive [OF received(1,2,4,5)] show ?thesis
    by (simp split: option.splits exn.splits)
qed

lemma attempt_false_logged:
  "fst (attempt url p f k h w) = Inr False \<Longrightarrow>
     \<exists>before. trace (snd (attempt url p f k h w)) = before @ [Print_error f]"
proof (cases rule: attempt_cases [where w=w and url=url and h=h and k=k and p=p and f=f])
  case no_response
  then show ?thesis by (simp add: attempt_no_response)
next
  case (bad_status r)
  then show ?thesis by (simp add: attempt_bad_status)
next
  case (malformed r)
  moreover assume "fst (attempt url p f k h w) = Inr False"
  ultimately show ?thesis by (simp add: attempt_malformed)
next
  case (received r t e w2)
  assume "fst (attempt url p f k h w) = Inr False"
  with attempt_receive [OF received(1,2,4,5)] show ?thesis
    by (simp split: option.splits exn.splits)
qed

lemma attempt_appends:
  assumes "files w q = Some old"
  shows "\<exists>new. files (snd (attempt url p f k h w)) q = Some (old @ new)"
proof (cases rule: attempt_cases [where w=w and url=url and h=h and k=k and p=p and f=f])
  case no_response
  with assms show ?thesis by (simp add: attempt_no_response)
next
  case (bad_status r)
  with assms show ?thesis by (simp add: attempt_bad_status)
next
  case (malformed r)
  with assms show ?thesis by (simp add: attempt_malformed)
next
  case (received r t e w2)
  from assms have "files (w\<lparr>sent := sent w @ [(url, h)]\<rparr>) q = Some old" by simp
  from receive_appends [OF received(5) this] obtain new where "files w2 q = Some (old @ new)"
    by (elim exE)
  with attempt_receive [OF received(1,2,4,5)] show ?thesis
    by (simp split: option.splits exn.splits)
qed

lemma write_chunks_overflow:
  "disk_free w < length (concat cs) \<Longrightarrow> fst (write_chunks p cs w bar) = Some OSError"
proof (induction cs arbitrary: w bar)
  case Nil
  then show ?case by simp
next
  case (Cons c cs)
  show ?case
  proof (cases "c = []")
    case True
    with Cons show ?thesis by simp
  next
    case False
    obtain b w1 where wc: "write_chunk p c w = (b, w1)" by (cases "write_chunk p c w")
    show ?thesis
    proof (cases b)
      case True
      with False wc show ?thesis by simp
    next
      case nb: False
      with write_chunk_files(2,3) [OF wc] have "disk_free w1 = disk_free w - length c" "length c \<le> disk_free w"
        by simp_all
      with Cons.prems have "disk_free w1 < length (concat cs)" by simp
      from Cons.IH [OF this] nb False wc show ?thesis by simp
    qed
  qed
qed

lemma receive_denied:
  "open_raises w p \<Longrightarrow> receive p f r t k w = (Some OSError, w)"
  by (simp add: receive_def)

lemma receive_overflow:
  assumes "\<not> open_raises w p" and "disk_free w < length (concat (chunks r))"
  shows "fst (receive p f r t k w) = Some OSError"
proof -
  obtain x w2 bar' where wc:
    "write_chunks p (chunks r) (open_ab p w) \<lparr>desc = f, total = t, initial = k, n = k\<rparr> = (x, w2, bar')"
    by (cases "write_chunks p (chunks r) (open_ab p w) \<lparr>desc = f, total = t, initial = k, n = k\<rparr>")
  from assms(2) have "disk_free (open_ab p w) < length (concat (chunks r))" by simp
  from write_chunks_overflow [OF this, of p "\<lparr>desc = f, total = t, initial = k, n = k\<rparr>"] wc
  have "x = Some OSError" by simp
  with receive_unfold [OF assms(1) wc] show ?thesis by simp
qed

text \<open>\<^verbatim>\<open>download_file\<close> once the directory is there: lines 22 to 34, then the \<^verbatim>\<open>try\<close>.\<close>

lemma download_file_unfold:
  "\<not> makedirs_raises w d \<Longrightarrow>
   download_file url d w =
     attempt url (path_join d (split_last url)) (split_last url)
       (resume_pos w (path_join d (split_last url)))
       (range_headers (resume_pos w (path_join d (split_last url))))
       (if files w (path_join d (split_last url)) \<noteq> None
        then emit (Print_resume (split_last url) (resume_pos w (path_join d (split_last url)))) w
        else w)"
  by (simp add: download_file_def Let_def)

lemma download_file_denied:
  "makedirs_raises w d \<Longrightarrow> download_file url d w = (Inl OSError, w)"
  by (simp add: download_file_def)

lemma download_file_receive:
  assumes "\<not> makedirs_raises w d"
    and "server w (length (sent w)) url (range_headers (resume_pos w (path_join d (split_last url)))) = Reply r"
    and "\<not> raise_for_status r" and "total_size r (resume_pos w (path_join d (split_last url))) = Some t"
  shows "\<exists>w1. files w1 = files w \<and> open_raises w1 = open_raises w \<and> disk_free w1 = disk_free w
            \<and> bars w1 = bars w \<and>
     download_file url d w =
       (case receive (path_join d (split_last url)) (split_last url) r t
               (resume_pos w (path_join d (split_last url))) w1 of
          (None, w2) \<Rightarrow> (Inr True, emit (Print_done (split_last url)) w2)
        | (Some RequestException, w2) \<Rightarrow> (Inr False, emit (Print_error (split_last url)) w2)
        | (Some OSError, w2) \<Rightarrow> (Inl OSError, w2)
        | (Some ValueError, w2) \<Rightarrow> (Inl ValueError, w2))"
proof -
  let ?p = "path_join d (split_last url)"
  let ?k = "resume_pos w ?p"
  let ?w0 = "if files w ?p \<noteq> None then emit (Print_resume (split_last url) ?k) w else w"
  let ?w1 = "?w0\<lparr>sent := sent ?w0 @ [(url, range_headers ?k)]\<rparr>"
  obtain e w2 where rc: "receive ?p (split_last url) r t ?k ?w1 = (e, w2)"
    by (cases "receive ?p (split_last url) r t ?k ?w1")
  from assms(2) have "server ?w0 (length (sent ?w0)) url (range_headers ?k) = Reply r" by simp
  from attempt_receive [OF this assms(3,4) rc] download_file_unfold [OF assms(1), of url] rc
  have "download_file url d w =
       (case receive ?p (split_last url) r t ?k ?w1 of
          (None, w2) \<Rightarrow> (Inr True, emit (Print_done (split_last url)) w2)
        | (Some RequestException, w2) \<Rightarrow> (Inr False, emit (Print_error (split_last url)) w2)
        | (Some OSError, w2) \<Rightarrow> (Inl OSError, w2)
        | (Some ValueError, w2) \<Rightarrow> (Inl ValueError, w2))"
    by (simp split: option.splits exn.splits)
  moreover have "files ?w1 = files w \<and> open_raises ?w1 = open_raises w \<and> disk_free ?w1 = disk_free w
      \<and> bars ?w1 = bars w" by simp
  ultimately show ?thesis by (intro exI [of _ ?w1] conjI) simp_all
qed

lemma download_file_fits:
  assumes "\<not> makedirs_raises w d"
    and "server w (length (sent w)) url (range_headers (resume_pos w (path_join d (split_last url)))) = Reply r"
    and "\<not> raise_for_status r" and "total_size r (resume_pos w (path_join d (split_last url))) = Some t"
    and "\<not> open_raises w (path_join d (split_last url))"
    and "length (concat (chunks r)) \<le> disk_free w"
  shows "fst (download_file url d w) = Inr (ending r \<noteq> Broken)"
    and "files (snd (download_file url d w)) =
           (files w)(path_join d (split_last url) \<mapsto>
              (case files w (path_join d (split_last url)) of None \<Rightarrow> [] | Some old \<Rightarrow> old)
              @ concat (chunks r))"
    and "disk_free (snd (download_file url d w)) = disk_free w - length (concat (chunks r))"
    and "bars (snd (download_file url d w)) =
           bars w @ [\<lparr>desc = split_last url, total = t,
                      initial = resume_pos w (path_join d (split_last url)),
                      n = resume_pos w (path_join d (split_last url)) + int (length (concat (chunks r)))\<rparr>]"
proof -
  let ?p = "path_join d (split_last url)"
  from download_file_receive [OF assms(1-4)] obtain w1 where
    w1: "files w1 = files w" "open_raises w1 = open_raises w" "disk_free w1 = disk_free w"
      "bars w1 = bars w"
    and df: "download_file url d w =
       (case receive ?p (split_last url) r t (resume_pos w ?p) w1 of
          (None, w2) \<Rightarrow> (Inr True, emit (Print_done (split_last url)) w2)
        | (Some RequestException, w2) \<Rightarrow> (Inr False, emit (Print_error (split_last url)) w2)
        | (Some OSError, w2) \<Rightarrow> (Inl OSError, w2)
        | (Some ValueError, w2) \<Rightarrow> (Inl ValueError, w2))"
    by (elim exE conjE)
  from assms(5,6) w1 have "\<not> open_raises w1 ?p" "length (concat (chunks r)) \<le> disk_free w1"
    by simp_all
  note rf = receive_fits [OF this, of "split_last url" t "resume_pos w ?p"]
  show "fst (download_file url d w) = Inr (ending r \<noteq> Broken)"
    unfolding df rf by simp
  show "files (snd (download_file url d w)) =
           (files w)(?p \<mapsto> (case files w ?p of None \<Rightarrow> [] | Some old \<Rightarrow> old) @ concat (chunks r))"
    unfolding df rf using w1 by simp
  show "disk_free (snd (download_file url d w)) = disk_free w - length (concat (chunks r))"
    unfolding df rf using w1 by simp
  show "bars (snd (download_file url d w)) =
           bars w @ [\<lparr>desc = split_last url, total = t, initial = resume_pos w ?p,
                      n = resume_pos w ?p + int (length (concat (chunks r)))\<rparr>]"
    unfolding df rf using w1 by simp
qed

lemma download_file_appends:
  assumes "files w q = Some old"
  shows "\<exists>new. files (snd (download_file url d w)) q = Some (old @ new)"
proof (cases "makedirs_raises w d")
  case True
  with assms show ?thesis by (simp add: download_file_denied)
next
  case False
  show ?thesis unfolding download_file_unfold [OF False]
    by (rule attempt_appends) (simp add: assms)
qed

lemma download_file_not_request_exception:
  "fst (download_file url d w) \<noteq> Inl RequestException"
proof (cases "makedirs_raises w d")
  case True
  then show ?thesis by (simp add: download_file_denied)
next
  case False
  show ?thesis unfolding download_file_unfold [OF False]
    by (rule attempt_not_request_exception)
qed

lemma download_file_false_logged:
  assumes "fst (download_file url d w) = Inr False"
  shows "\<exists>before. trace (snd (download_file url d w)) = before @ [Print_error (split_last url)]"
proof (cases "makedirs_raises w d")
  case True
  with assms show ?thesis by (simp add: download_file_denied)
next
  case False
  from assms show ?thesis unfolding download_file_unfold [OF False]
    by (rule attempt_false_logged)
qed

lemma download_file_refused:
  assumes "\<not> makedirs_raises w d"
    and "server w (length (sent w)) url (range_headers (resume_pos w (path_join d (split_last url)))) = No_Response
       \<or> (\<exists>r. server w (length (sent w)) url (range_headers (resume_pos w (path_join d (split_last url)))) = Reply r
             \<and> raise_for_status r)"
  shows "fst (download_file url d w) = Inr False"
    and "files (snd (download_file url d w)) = files w"
proof -
  let ?p = "path_join d (split_last url)"
  let ?k = "resume_pos w ?p"
  let ?w0 = "if files w ?p \<noteq> None then emit (Print_resume (split_last url) ?k) w else w"
  from assms(2) have "server ?w0 (length (sent ?w0)) url (range_headers ?k) = No_Response
       \<or> (\<exists>r. server ?w0 (length (sent ?w0)) url (range_headers ?k) = Reply r \<and> raise_for_status r)"
    by simp
  then have "attempt url ?p (split_last url) ?k (range_headers ?k) ?w0 =
      (Inr False, emit (Print_error (split_last url)) (?w0\<lparr>sent := sent ?w0 @ [(url, range_headers ?k)]\<rparr>))"
    using attempt_no_response attempt_bad_status by blast
  then have df: "download_file url d w =
      (Inr False, emit (Print_error (split_last url)) (?w0\<lparr>sent := sent ?w0 @ [(url, range_headers ?k)]\<rparr>))"
    unfolding download_file_unfold [OF assms(1)] .
  show "fst (download_file url d w) = Inr False" unfolding df by simp
  show "files (snd (download_file url d w)) = files w" unfolding df by simp
qed

lemma download_file_malformed:
  assumes "\<not> makedirs_raises w d"
    and "server w (length (sent w)) url (range_headers (resume_pos w (path_join d (split_last url)))) = Reply r"
    and "\<not> raise_for_status r" and "clen r = Malformed"
  shows "fst (download_file url d w) = Inl ValueError"
proof -
  let ?p = "path_join d (split_last url)"
  let ?k = "resume_pos w ?p"
  let ?w0 = "if files w ?p \<noteq> None then emit (Print_resume (split_last url) ?k) w else w"
  from assms(2) have "server ?w0 (length (sent ?w0)) url (range_headers ?k) = Reply r" by simp
  from attempt_malformed [OF this assms(3,4)] show ?thesis
    unfolding download_file_unfold [OF assms(1)] by simp
qed

lemma download_file_os_error:
  assumes "\<not> makedirs_raises w d"
    and "server w (length (sent w)) url (range_headers (resume_pos w (path_join d (split_last url)))) = Reply r"
    and "\<not> raise_for_status r" and "clen r \<noteq> Malformed"
    and "open_raises w (path_join d (split_last url)) \<or> disk_free w < length (concat (chunks r))"
  shows "fst (download_file url d w) = Inl OSError"
proof -
  let ?p = "path_join d (split_last url)"
  from total_size_cases(1) [OF assms(4)] obtain t where t: "total_size r (resume_pos w ?p) = Some t"
    by blast
  from download_file_receive [OF assms(1-3) t] obtain w1 where
    w1: "files w1 = files w" "open_raises w1 = open_raises w" "disk_free w1 = disk_free w"
    and df: "download_file url d w =
       (case receive ?p (split_last url) r t (resume_pos w ?p) w1 of
          (None, w2) \<Rightarrow> (Inr True, emit (Print_done (split_last url)) w2)
        | (Some RequestException, w2) \<Rightarrow> (Inr False, emit (Print_error (split_last url)) w2)
        | (Some OSError, w2) \<Rightarrow> (Inl OSError, w2)
        | (Some ValueError, w2) \<Rightarrow> (Inl ValueError, w2))"
    by (elim exE conjE)
  have "fst (receive ?p (split_last url) r t (resume_pos w ?p) w1) = Some OSError"
  proof (cases "open_raises w1 ?p")
    case True
    then show ?thesis by (simp add: receive_denied)
  next
    case False
    with assms(5) w1 have "disk_free w1 < length (concat (chunks r))" by simp
    from receive_overflow [OF False this] show ?thesis .
  qed
  then obtain w2 where "receive ?p (split_last url) r t (resume_pos w ?p) w1 = (Some OSError, w2)"
    by (cases "receive ?p (split_last url) r t (resume_pos w ?p) w1") simp
  then show ?thesis unfolding df by simp
qed

section \<open>Evaluating the library functions\<close>

lemma split_last_ex: "split_last ''http://h/x/a'' = ''a''"
  by (simp add: split_last_def)

lemma path_join_ex: "path_join ''d'' ''a'' = ''d/a''"
  by (simp add: path_join_def)



lemma save_path_ex: "path_join ''d'' (split_last ''http://h/x/a'') = ''d/a''"
  by (simp add: split_last_ex path_join_ex)

section \<open>The claims about download\_file\<close>

text \<open>
  C1, as the code has it. The \<^verbatim>\<open>except\<close> clause names \<^verbatim>\<open>RequestException\<close> only.
  So a \<^verbatim>\<open>RequestException\<close> never leaves \<^verbatim>\<open>download_file\<close>: no response, an error
  status and a stream that breaks all give \<^verbatim>\<open>False\<close>, and whenever \<^verbatim>\<open>False\<close> is
  returned the error message is the last thing printed. Every other error leaves the
  function as an exception: \<^verbatim>\<open>OSError\<close> when the directory cannot be made (nothing else
  has happened then), when the file cannot be opened or the disk is full, and
  \<^verbatim>\<open>ValueError\<close> when the content length is not a number. In the worker such an
  exception passes \<^verbatim>\<open>queue.task_done()\<close> and ends the thread that made the call, which
  takes no further step; it is not raised in the thread that started the round.
\<close>

theorem only_request_exceptions_are_caught:
  fixes w :: world and url save_dir :: string
  defines "out \<equiv> download_file url save_dir w"
    and "save_path \<equiv> path_join save_dir (split_last url)"
  defines "reply \<equiv> server w (length (sent w)) url (range_headers (resume_pos w save_path))"
  shows
    "fst out \<noteq> Inl RequestException
   \<and> (fst out = Inr False \<longrightarrow> (\<exists>before. trace (snd out) = before @ [Print_error (split_last url)]))
   \<and> (\<not> makedirs_raises w save_dir \<and> reply = No_Response \<longrightarrow> fst out = Inr False)
   \<and> (\<forall>r. \<not> makedirs_raises w save_dir \<and> reply = Reply r \<and> raise_for_status r \<longrightarrow> fst out = Inr False)
   \<and> (\<forall>r. \<not> makedirs_raises w save_dir \<and> reply = Reply r \<and> \<not> raise_for_status r
           \<and> clen r \<noteq> Malformed \<and> \<not> open_raises w save_path
           \<and> length (concat (chunks r)) \<le> disk_free w \<and> ending r = Broken \<longrightarrow> fst out = Inr False)
   \<and> (makedirs_raises w save_dir \<longrightarrow> out = (Inl OSError, w))
   \<and> (\<forall>r. \<not> makedirs_raises w save_dir \<and> reply = Reply r \<and> \<not> raise_for_status r
           \<and> clen r \<noteq> Malformed
           \<and> (open_raises w save_path \<or> disk_free w < length (concat (chunks r)))
         \<longrightarrow> fst out = Inl OSError)
   \<and> (\<forall>r. \<not> makedirs_raises w save_dir \<and> reply = Reply r \<and> \<not> raise_for_status r
           \<and> clen r = Malformed \<longrightarrow> fst out = Inl ValueError)
   \<and> (\<forall>s i e. i < length (threads s) \<and> threads s ! i = At_call url \<and> fst out = Inl e \<longrightarrow>
           threads (snd (worker_step save_dir i (w, s))) ! i = At_task_done (Some e))
   \<and> (\<forall>s i e w1. i < length (threads s) \<and> threads s ! i = At_task_done (Some e)
           \<and> unfinished_tasks s \<noteq> 0 \<longrightarrow>
           threads (snd (worker_step save_dir i (w1, s))) ! i = Died e)
   \<and> (\<forall>s i e w1. i < length (threads s) \<and> threads s ! i = Died e \<longrightarrow>
           worker_step save_dir i (w1, s) = (w1, s))"
proof (intro conjI allI impI)
  show "fst out \<noteq> Inl RequestException"
    unfolding out_def by (rule download_file_not_request_exception)
  show "\<exists>before. trace (snd out) = before @ [Print_error (split_last url)]" if "fst out = Inr False"
    using that unfolding out_def by (rule download_file_false_logged)
  show "fst out = Inr False" if "\<not> makedirs_raises w save_dir \<and> reply = No_Response"
    using that unfolding out_def reply_def save_path_def
    by (intro download_file_refused(1)) simp_all
  show "fst out = Inr False" if "\<not> makedirs_raises w save_dir \<and> reply = Reply r \<and> raise_for_status r" for r
    using that unfolding out_def reply_def save_path_def
    by (intro download_file_refused(1)) simp_all
  show "fst out = Inr False"
    if h: "\<not> makedirs_raises w save_dir \<and> reply = Reply r \<and> \<not> raise_for_status r
           \<and> clen r \<noteq> Malformed \<and> \<not> open_raises w save_path
           \<and> length (concat (chunks r)) \<le> disk_free w \<and> ending r = Broken" for r
  proof -
    from h total_size_cases(1) obtain t where "total_size r (resume_pos w save_path) = Some t"
      by blast
    with h download_file_fits(1) [of w save_dir url r t] show ?thesis
      unfolding out_def reply_def save_path_def by simp
  qed
  show "out = (Inl OSError, w)" if "makedirs_raises w save_dir"
    using that unfolding out_def by (rule download_file_denied)
  show "fst out = Inl OSError"
    if h: "\<not> makedirs_raises w save_dir \<and> reply = Reply r \<and> \<not> raise_for_status r
           \<and> clen r \<noteq> Malformed
           \<and> (open_raises w save_path \<or> disk_free w < length (concat (chunks r)))" for r
    using h download_file_os_error [of w save_dir url r] unfolding out_def reply_def save_path_def
    by simp
  show "fst out = Inl ValueError"
    if h: "\<not> makedirs_raises w save_dir \<and> reply = Reply r \<and> \<not> raise_for_status r
           \<and> clen r = Malformed" for r
    using h download_file_malformed [of w save_dir url r] unfolding out_def reply_def save_path_def
    by simp
  show "threads (snd (worker_step save_dir i (w, s))) ! i = At_task_done (Some e)"
    if "i < length (threads s) \<and> threads s ! i = At_call url \<and> fst out = Inl e" for s i e
    using that unfolding out_def
    by (cases "download_file url save_dir w") (simp add: worker_step_def)
  show "threads (snd (worker_step save_dir i (w1, s))) ! i = Died e"
    if "i < length (threads s) \<and> threads s ! i = At_task_done (Some e) \<and> unfinished_tasks s \<noteq> 0"
    for s i e w1
    using that by (simp add: worker_step_def)
  show "worker_step save_dir i (w1, s) = (w1, s)"
    if "i < length (threads s) \<and> threads s ! i = Died e" for s i e w1
    using that by (simp add: worker_step_def)
qed


theorem only_request_exceptions_are_caught_witness:
  "\<not> makedirs_raises blank ''d''
   \<and> server blank (length (sent blank)) ''http://h/x/a''
         (range_headers (resume_pos blank (path_join ''d'' (split_last ''http://h/x/a'')))) = No_Response
   \<and> fst (download_file ''http://h/x/a'' ''d'' blank) = Inr False
   \<and> (\<exists>before. trace (snd (download_file ''http://h/x/a'' ''d'' blank)) = before @ [Print_error ''a''])
   \<and> makedirs_raises w_denied ''d''
   \<and> download_file ''http://h/x/a'' ''d'' w_denied = (Inl OSError, w_denied)"
proof -
  note t = only_request_exceptions_are_caught [of "''http://h/x/a''" "''d''" blank]
  note u = only_request_exceptions_are_caught [of "''http://h/x/a''" "''d''" w_denied]
  have 1: "\<not> makedirs_raises blank ''d''" by (simp add: blank_def)
  have 2: "server blank (length (sent blank)) ''http://h/x/a''
         (range_headers (resume_pos blank (path_join ''d'' (split_last ''http://h/x/a'')))) = No_Response"
    by (simp add: blank_def)
  from t 1 2 have 3: "fst (download_file ''http://h/x/a'' ''d'' blank) = Inr False" by simp
  with t have 4: "\<exists>before. trace (snd (download_file ''http://h/x/a'' ''d'' blank)) =
       before @ [Print_error (split_last ''http://h/x/a'')]" by simp
  have 5: "makedirs_raises w_denied ''d''" by (simp add: w_denied_def)
  with u have 6: "download_file ''http://h/x/a'' ''d'' w_denied = (Inl OSError, w_denied)" by simp
  from 1 2 3 4 5 6 show ?thesis unfolding split_last_ex by (intro conjI)
qed

text \<open>
  C1 as stated fails: with a directory that cannot be made, or a file that cannot be
  opened, the call ends with \<^verbatim>\<open>OSError\<close> and not with \<^verbatim>\<open>False\<close>.
\<close>

theorem filesystem_error_leaves_download_file:
  "fst (download_file ''http://h/x/a'' ''d'' w_denied) = Inl OSError
   \<and> fst (download_file ''http://h/x/a'' ''d'' w_readonly) = Inl OSError"
proof
  show "fst (download_file ''http://h/x/a'' ''d'' w_denied) = Inl OSError"
    by (simp add: download_file_def w_denied_def)
  have "\<not> makedirs_raises w_readonly ''d''" by (simp add: w_readonly_def blank_def)
  moreover have "server w_readonly (length (sent w_readonly)) ''http://h/x/a''
      (range_headers (resume_pos w_readonly (path_join ''d'' (split_last ''http://h/x/a'')))) = Reply two_more"
    by (simp add: w_readonly_def)
  moreover have "\<not> raise_for_status two_more" "clen two_more \<noteq> Malformed"
    by (simp_all add: raise_for_status_def two_more_def)
  moreover have "open_raises w_readonly (path_join ''d'' (split_last ''http://h/x/a''))"
    by (simp add: w_readonly_def)
  ultimately show "fst (download_file ''http://h/x/a'' ''d'' w_readonly) = Inl OSError"
    by (intro download_file_os_error) simp_all
qed







text \<open>
  C8. No call of \<^verbatim>\<open>download_file\<close>, however it ends, removes or shortens a file: what
  was on disk is a prefix of what is there afterwards. When the stream breaks, the call
  returns \<^verbatim>\<open>False\<close> and the file holds its old bytes followed by every chunk that
  arrived; when there is no response or an error status, the call returns \<^verbatim>\<open>False\<close>
  and no file has changed.
\<close>

theorem partial_file_is_kept:
  fixes w :: world and url save_dir :: string
  defines "out \<equiv> download_file url save_dir w"
    and "save_path \<equiv> path_join save_dir (split_last url)"
  defines "reply \<equiv> server w (length (sent w)) url (range_headers (resume_pos w save_path))"
  shows
    "(\<forall>q old. files w q = Some old \<longrightarrow> (\<exists>new. files (snd out) q = Some (old @ new)))
   \<and> (\<forall>r. \<not> makedirs_raises w save_dir \<and> reply = Reply r \<and> \<not> raise_for_status r
          \<and> clen r \<noteq> Malformed \<and> \<not> open_raises w save_path
          \<and> length (concat (chunks r)) \<le> disk_free w \<and> ending r = Broken \<longrightarrow>
          fst out = Inr False
        \<and> files (snd out) save_path =
            Some ((case files w save_path of None \<Rightarrow> [] | Some old \<Rightarrow> old) @ concat (chunks r)))
   \<and> (\<not> makedirs_raises w save_dir
        \<and> (reply = No_Response \<or> (\<exists>r. reply = Reply r \<and> raise_for_status r)) \<longrightarrow>
          fst out = Inr False \<and> files (snd out) = files w)"
proof (intro conjI)
  show "\<forall>q old. files w q = Some old \<longrightarrow> (\<exists>new. files (snd out) q = Some (old @ new))"
    unfolding out_def by (intro allI impI) (rule download_file_appends)
  show "\<forall>r. \<not> makedirs_raises w save_dir \<and> reply = Reply r \<and> \<not> raise_for_status r
          \<and> clen r \<noteq> Malformed \<and> \<not> open_raises w save_path
          \<and> length (concat (chunks r)) \<le> disk_free w \<and> ending r = Broken \<longrightarrow>
          fst out = Inr False
        \<and> files (snd out) save_path =
            Some ((case files w save_path of None \<Rightarrow> [] | Some old \<Rightarrow> old) @ concat (chunks r))"
  proof (intro allI impI)
    fix r
    assume h: "\<not> makedirs_raises w save_dir \<and> reply = Reply r \<and> \<not> raise_for_status r
          \<and> clen r \<noteq> Malformed \<and> \<not> open_raises w save_path
          \<and> length (concat (chunks r)) \<le> disk_free w \<and> ending r = Broken"
    from h total_size_cases(1) obtain t where t: "total_size r (resume_pos w save_path) = Some t"
      by blast
    from h t download_file_fits(1,2) [of w save_dir url r t]
    show "fst out = Inr False
        \<and> files (snd out) save_path =
            Some ((case files w save_path of None \<Rightarrow> [] | Some old \<Rightarrow> old) @ concat (chunks r))"
      unfolding out_def reply_def save_path_def by simp
  qed
  show "\<not> makedirs_raises w save_dir
        \<and> (reply = No_Response \<or> (\<exists>r. reply = Reply r \<and> raise_for_status r)) \<longrightarrow>
          fst out = Inr False \<and> files (snd out) = files w"
    using download_file_refused [of w save_dir url]
    unfolding out_def reply_def save_path_def by simp
qed

theorem partial_file_is_kept_witness:
  "files w_broken ''d/a'' = Some ''abc''
   \<and> \<not> makedirs_raises w_broken ''d''
   \<and> server w_broken (length (sent w_broken)) ''http://h/x/a''
        (range_headers (resume_pos w_broken (path_join ''d'' (split_last ''http://h/x/a'')))) = Reply cut_off
   \<and> ending cut_off = Broken
   \<and> fst (download_file ''http://h/x/a'' ''d'' w_broken) = Inr False
   \<and> files (snd (download_file ''http://h/x/a'' ''d'' w_broken)) ''d/a'' = Some ''abcdef''"
proof -
  note t = partial_file_is_kept [of w_broken "''http://h/x/a''" "''d''", unfolded save_path_ex]
  have f: "files w_broken ''d/a'' = Some ''abc''" by (simp add: w_broken_def)
  have m: "\<not> makedirs_raises w_broken ''d''" by (simp add: w_broken_def blank_def)
  have s: "server w_broken (length (sent w_broken)) ''http://h/x/a''
        (range_headers (resume_pos w_broken ''d/a'')) = Reply cut_off"
    by (simp add: w_broken_def)
  have r: "\<not> raise_for_status cut_off" "clen cut_off \<noteq> Malformed" "ending cut_off = Broken"
    "concat (chunks cut_off) = ''def''"
    by (simp_all add: raise_for_status_def cut_off_def)
  have o: "\<not> open_raises w_broken ''d/a''" "disk_free w_broken = 100"
    by (simp_all add: w_broken_def blank_def)
  from t m s r o f
  have "fst (download_file ''http://h/x/a'' ''d'' w_broken) = Inr False
      \<and> files (snd (download_file ''http://h/x/a'' ''d'' w_broken)) ''d/a'' = Some ''abcdef''"
    by simp
  with f m s r(3) show ?thesis unfolding save_path_ex by simp
qed






section \<open>The bookkeeping of a dispatch round\<close>

lemma sum_list_map_update:
  fixes f :: "'a \<Rightarrow> 'b::comm_monoid_add"
  shows "i < length xs \<Longrightarrow> sum_list (map f (xs[i := y])) + f (xs ! i) = sum_list (map f xs) + f y"
proof (induction xs arbitrary: i)
  case Nil
  then show ?case by simp
next
  case (Cons x xs)
  show ?case
  proof (cases i)
    case 0
    then show ?thesis by (simp add: ac_simps)
  next
    case (Suc j)
    with Cons.prems have "j < length xs" by simp
    from Cons.IH [OF this] Suc show ?thesis by (simp add: ac_simps)
  qed
qed

lemma attempt_calls: "calls (snd (attempt url p f k h w)) = calls w"
proof (cases rule: attempt_cases [where w=w and url=url and h=h and k=k and p=p and f=f])
  case no_response
  then show ?thesis by (simp add: attempt_no_response)
next
  case (bad_status r)
  then show ?thesis by (simp add: attempt_bad_status)
next
  case (malformed r)
  then show ?thesis by (simp add: attempt_malformed)
next
  case (received r t e w2)
  from receive_frame [OF received(5)] have "calls w2 = calls w" by simp
  with attempt_receive [OF received(1,2,4,5)] show ?thesis
    by (simp split: option.splits exn.splits)
qed

lemma download_file_calls: "calls (snd (download_file url d w)) = calls w"
proof (cases "makedirs_raises w d")
  case True
  then show ?thesis by (simp add: download_file_denied)
next
  case False
  show ?thesis unfolding download_file_unfold [OF False] attempt_calls by simp
qed

lemma round_invI:
  assumes "calls w = before @ cs"
    and "mset tasks = mset (queue s) + sum_list (map claimed (threads s)) + mset (map fst cs)"
    and "unfinished_tasks s = length (queue s) + sum_list (map busy (threads s))"
    and "mset (failed_queue s) + sum_list (map to_report (threads s)) = mset (failures cs)"
  shows "round_inv before tasks (w, s)"
  unfolding round_inv_def using assms by (intro exI [of _ cs]) simp

lemma round_invE:
  assumes "round_inv before tasks (w, s)"
  obtains cs where "calls w = before @ cs"
    and "mset tasks = mset (queue s) + sum_list (map claimed (threads s)) + mset (map fst cs)"
    and "unfinished_tasks s = length (queue s) + sum_list (map busy (threads s))"
    and "mset (failed_queue s) + sum_list (map to_report (threads s)) = mset (failures cs)"
  using assms unfolding round_inv_def by auto

lemma failures_snoc:
  "failures (cs @ [(url, res)]) = failures cs @ (if res = Inr False then [url] else [])"
  by (simp add: failures_def)

lemma after_call_sums:
  "claimed (after_call url res) = {#}" "busy (after_call url res) = 1"
  "to_report (after_call url res) = (if res = Inr False then {#url#} else {#})"
  by (auto simp: after_call_def split: sum.splits bool.splits)

lemma worker_step_inv:
  assumes "round_inv before tasks ws"
  shows "round_inv before tasks (worker_step d i ws)"
proof -
  obtain w s where ws: "ws = (w, s)" by (cases ws)
  from assms [unfolded ws] obtain cs where
    c: "calls w = before @ cs"
    and q: "mset tasks = mset (queue s) + sum_list (map claimed (threads s)) + mset (map fst cs)"
    and u: "unfinished_tasks s = length (queue s) + sum_list (map busy (threads s))"
    and f: "mset (failed_queue s) + sum_list (map to_report (threads s)) = mset (failures cs)"
    by (rule round_invE)
  show ?thesis
  proof (cases "i < length (threads s)")
    case False
    with assms ws show ?thesis by (simp add: worker_step_def)
  next
    case True
    note cl = sum_list_map_update [OF True, of claimed]
    note bu = sum_list_map_update [OF True, of busy]
    note re = sum_list_map_update [OF True, of to_report]
    show ?thesis
    proof (cases "threads s ! i")
      case At_test
      let ?pc = "if queue s = [] then Returned else At_get"
      have st: "worker_step d i ws = (w, s\<lparr>threads := (threads s)[i := ?pc]\<rparr>)"
        using True At_test by (simp add: worker_step_def ws)
      from cl [of ?pc] bu [of ?pc] re [of ?pc] At_test
      have "sum_list (map claimed ((threads s)[i := ?pc])) = sum_list (map claimed (threads s))"
        "sum_list (map busy ((threads s)[i := ?pc])) = sum_list (map busy (threads s))"
        "sum_list (map to_report ((threads s)[i := ?pc])) = sum_list (map to_report (threads s))"
        by simp_all
      with c q u f show ?thesis unfolding st by (intro round_invI [of _ _ cs]) simp_all
    next
      case At_get
      show ?thesis
      proof (cases "queue s")
        case Nil
        with True At_get have "worker_step d i ws = ws" by (simp add: worker_step_def ws)
        with assms show ?thesis by simp
      next
        case (Cons url rest)
        have st: "worker_step d i ws = (w, s\<lparr>queue := rest, threads := (threads s)[i := At_call url]\<rparr>)"
          using True At_get Cons by (simp add: worker_step_def ws)
        from cl [of "At_call url"] bu [of "At_call url"] re [of "At_call url"] At_get
        have "sum_list (map claimed ((threads s)[i := At_call url])) = sum_list (map claimed (threads s)) + {#url#}"
          "sum_list (map busy ((threads s)[i := At_call url])) = sum_list (map busy (threads s)) + 1"
          "sum_list (map to_report ((threads s)[i := At_call url])) = sum_list (map to_report (threads s))"
          by simp_all
        with c q u f Cons show ?thesis unfolding st by (intro round_invI [of _ _ cs]) simp_all
      qed
    next
      case (At_call url)
      obtain res w1 where df: "download_file url d w = (res, w1)" by (cases "download_file url d w")
      from download_file_calls [of url d w] df have c1: "calls w1 = calls w" by simp
      let ?pc = "after_call url res"
      have st: "worker_step d i ws =
          (w1\<lparr>calls := calls w1 @ [(url, res)]\<rparr>, s\<lparr>threads := (threads s)[i := ?pc]\<rparr>)"
        using True At_call df by (simp add: worker_step_def ws after_call_def)
      from cl [of ?pc] bu [of ?pc] re [of ?pc] At_call
      have "sum_list (map claimed (threads s)) = sum_list (map claimed ((threads s)[i := ?pc])) + {#url#}"
        "sum_list (map busy ((threads s)[i := ?pc])) = sum_list (map busy (threads s))"
        "sum_list (map to_report ((threads s)[i := ?pc]))
           = sum_list (map to_report (threads s)) + (if res = Inr False then {#url#} else {#})"
        by (simp_all add: after_call_sums)
      with c c1 q u f show ?thesis unfolding st
        by (intro round_invI [of _ _ "cs @ [(url, res)]"]) (auto simp: failures_snoc)
    next
      case (At_put url)
      have st: "worker_step d i ws =
          (w, s\<lparr>failed_queue := failed_queue s @ [url], threads := (threads s)[i := At_task_done None]\<rparr>)"
        using True At_put by (simp add: worker_step_def ws)
      from cl [of "At_task_done None"] bu [of "At_task_done None"] re [of "At_task_done None"] At_put
      have "sum_list (map claimed ((threads s)[i := At_task_done None])) = sum_list (map claimed (threads s))"
        "sum_list (map busy ((threads s)[i := At_task_done None])) = sum_list (map busy (threads s))"
        "sum_list (map to_report (threads s))
           = sum_list (map to_report ((threads s)[i := At_task_done None])) + {#url#}"
        by simp_all
      with c q u f show ?thesis unfolding st by (intro round_invI [of _ _ cs]) auto
    next
      case (At_task_done e)
      from bu [of Returned] At_task_done have pos: "0 < sum_list (map busy (threads s))" by simp
      with u have un: "unfinished_tasks s \<noteq> 0" by linarith
      let ?pc = "case e of None \<Rightarrow> At_test | Some x \<Rightarrow> Died x"
      have st: "worker_step d i ws =
          (w, s\<lparr>unfinished_tasks := unfinished_tasks s - 1, threads := (threads s)[i := ?pc]\<rparr>)"
        using True At_task_done un by (simp add: worker_step_def ws)
      have z: "claimed ?pc = {#}" "busy ?pc = 0" "to_report ?pc = {#}"
        by (simp_all split: option.splits)
      from cl [of ?pc] bu [of ?pc] re [of ?pc] At_task_done z
      have "sum_list (map claimed ((threads s)[i := ?pc])) = sum_list (map claimed (threads s))"
        "sum_list (map busy (threads s)) = sum_list (map busy ((threads s)[i := ?pc])) + 1"
        "sum_list (map to_report ((threads s)[i := ?pc])) = sum_list (map to_report (threads s))"
        by simp_all
      with c q u f show ?thesis unfolding st by (intro round_invI [of _ _ cs]) auto
    next
      case Returned
      with True have "worker_step d i ws = ws" by (simp add: worker_step_def ws)
      with assms show ?thesis by simp
    next
      case (Died e)
      with True have "worker_step d i ws = ws" by (simp add: worker_step_def ws)
      with assms show ?thesis by simp
    qed
  qed
qed

lemma idle_sums: "sum_list (replicate k ({#} :: string multiset)) = {#}"
  by (induction k) simp_all

lemma start_round_inv: "round_inv (calls w) tasks (start_round tasks max_threads w)"
  unfolding start_round_def Let_def
  by (intro round_invI [of _ _ "[]"]) (simp_all add: idle_sums failures_def)

lemma steps_inv: "round_inv before tasks ws \<Longrightarrow> round_inv before tasks (steps d sched ws)"
  unfolding steps_def
  by (induction sched arbitrary: ws) (simp_all add: worker_step_inv)

lemma join_steps:
  "join d sched ws = Some ws' \<Longrightarrow>
     unfinished_tasks (snd ws') = 0 \<and> (\<exists>k. ws' = steps d (take k sched) ws)"
proof (induction sched arbitrary: ws)
  case Nil
  then show ?case by (simp add: steps_def split: if_splits)
next
  case (Cons i sched)
  show ?case
  proof (cases "unfinished_tasks (snd ws) = 0")
    case True
    with Cons.prems have "ws' = ws" by simp
    with True have "unfinished_tasks (snd ws') = 0 \<and> ws' = steps d (take 0 (i # sched)) ws"
      by (simp add: steps_def)
    then show ?thesis by blast
  next
    case False
    with Cons.prems have "join d sched (worker_step d i ws) = Some ws'" by simp
    from Cons.IH [OF this] obtain k where
      "unfinished_tasks (snd ws') = 0" "ws' = steps d (take k sched) (worker_step d i ws)"
      by blast
    then have "unfinished_tasks (snd ws') = 0 \<and> ws' = steps d (take (Suc k) (i # sched)) ws"
      by (simp add: steps_def)
    then show ?thesis by blast
  qed
qed

lemma join_inv:
  assumes "join d sched ws = Some ws'" and "round_inv before tasks ws"
  shows "round_inv before tasks ws'" and "unfinished_tasks (snd ws') = 0"
proof -
  from join_steps [OF assms(1)] obtain k where
    0: "unfinished_tasks (snd ws') = 0" and k: "ws' = steps d (take k sched) ws" by blast
  from steps_inv [OF assms(2)] k show "round_inv before tasks ws'" by simp
  from 0 show "unfinished_tasks (snd ws') = 0" .
qed

lemma nobody_busy:
  "sum_list (map busy ts) = 0 \<Longrightarrow>
     sum_list (map claimed ts) = {#} \<and> sum_list (map to_report ts) = {#}"
proof (induction ts)
  case Nil
  then show ?case by simp
next
  case (Cons t ts)
  then show ?case by (cases t) simp_all
qed

lemma round_finished:
  assumes "round_inv before tasks (w, s)" and "unfinished_tasks s = 0"
  shows "\<exists>cs. calls w = before @ cs \<and> mset (map fst cs) = mset tasks
            \<and> mset (failed_queue s) = mset (failures cs)"
proof -
  from assms(1) obtain cs where
    c: "calls w = before @ cs"
    and q: "mset tasks = mset (queue s) + sum_list (map claimed (threads s)) + mset (map fst cs)"
    and u: "unfinished_tasks s = length (queue s) + sum_list (map busy (threads s))"
    and f: "mset (failed_queue s) + sum_list (map to_report (threads s)) = mset (failures cs)"
    by (rule round_invE)
  from u assms(2) have e: "queue s = []" and "sum_list (map busy (threads s)) = 0" by simp_all
  from nobody_busy [OF this(2)] q f e c
  have "calls w = before @ cs \<and> mset (map fst cs) = mset tasks
            \<and> mset (failed_queue s) = mset (failures cs)" by simp
  then show ?thesis by (rule exI)
qed

lemma round_unfinished:
  assumes "round_inv before tasks (w, s)"
  shows "\<exists>cs. calls w = before @ cs \<and> mset (map fst cs) \<subseteq># mset tasks"
proof -
  from assms obtain cs where
    c: "calls w = before @ cs"
    and q: "mset tasks = mset (queue s) + sum_list (map claimed (threads s)) + mset (map fst cs)"
    by (rule round_invE)
  from q have "mset (map fst cs) \<subseteq># mset tasks" by simp
  with c show ?thesis by blast
qed

lemma run_round_finished:
  assumes "run_round sched tasks d max_threads w = Some (w', s)"
  shows "\<exists>cs. calls w' = calls w @ cs \<and> mset (map fst cs) = mset tasks
            \<and> mset (failed_queue s) = mset (failures cs)"
proof -
  from assms have j: "join d sched (start_round tasks max_threads w) = Some (w', s)"
    by (simp add: run_round_def)
  from join_inv [OF j start_round_inv] have "round_inv (calls w) tasks (w', s)"
    "unfinished_tasks s = 0" by simp_all
  then show ?thesis by (rule round_finished)
qed

lemma dispatch_finished:
  assumes "download_files_in_parallel sched tasks d max_threads w = Some (failed, w')"
  shows "\<exists>cs. calls w' = calls w @ cs \<and> mset (map fst cs) = mset tasks
            \<and> mset failed = mset (failures cs)"
proof -
  from assms obtain s where "run_round sched tasks d max_threads w = Some (w', s)"
    and "failed = failed_queue s"
    by (auto simp: download_files_in_parallel_def split: option.splits)
  with run_round_finished [of sched tasks d max_threads w w' s] show ?thesis by simp
qed

lemma failures_sub: "mset (failures cs) \<subseteq># mset (map fst cs)"
  unfolding failures_def by (induction cs) (auto intro: subset_mset.order_trans)

section \<open>Counting dispatch rounds and calls across the retry loop\<close>














section \<open>A round comes back unless a thread dies\<close>

lemma worker_step_threads:
  "length (threads (snd (worker_step d i ws))) = length (threads (snd ws))"
  by (cases ws)
     (simp add: worker_step_def Let_def split: pc.splits list.splits prod.splits sum.splits bool.splits option.splits)

lemma steps_threads:
  "length (threads (snd (steps d sched ws))) = length (threads (snd ws))"
  unfolding steps_def by (induction sched arbitrary: ws) (simp_all add: worker_step_threads)

lemma stuck_step: "\<not> can_move i ws \<Longrightarrow> worker_step d i ws = ws"
  by (cases ws) (auto simp: can_move_def worker_step_def split: pc.splits list.splits)

lemma moving_step:
  assumes "can_move i ws"
  shows "potential (worker_step d i ws) < potential ws"
proof -
  obtain w s where ws: "ws = (w, s)" by (cases ws)
  from assms have i: "i < length (threads s)" by (simp add: can_move_def ws)
  note wt = sum_list_map_update [OF i, of weight]
  show ?thesis
  proof (cases "threads s ! i")
    case At_test
    let ?pc = "if queue s = [] then Returned else At_get"
    have st: "worker_step d i ws = (w, s\<lparr>threads := (threads s)[i := ?pc]\<rparr>)"
      using i At_test by (simp add: worker_step_def ws)
    have "weight ?pc = 0" by simp
    with wt [of ?pc] At_test
    have "sum_list (map weight (threads s)) = sum_list (map weight ((threads s)[i := ?pc])) + 1"
      by simp
    then show ?thesis unfolding st by (simp add: potential_def ws)
  next
    case At_get
    with assms obtain url rest where q: "queue s = url # rest"
      by (cases "queue s") (simp_all add: can_move_def ws)
    have st: "worker_step d i ws = (w, s\<lparr>queue := rest, threads := (threads s)[i := At_call url]\<rparr>)"
      using i At_get q by (simp add: worker_step_def ws)
    from wt [of "At_call url"] At_get q show ?thesis unfolding st by (simp add: potential_def ws)
  next
    case (At_call url)
    obtain res w1 where df: "download_file url d w = (res, w1)" by (cases "download_file url d w")
    have st: "worker_step d i ws =
        (w1\<lparr>calls := calls w1 @ [(url, res)]\<rparr>, s\<lparr>threads := (threads s)[i := after_call url res]\<rparr>)"
      using i At_call df by (simp add: worker_step_def ws after_call_def)
    have "weight (after_call url res) < 4"
      by (simp add: after_call_def split: sum.splits bool.splits)
    with wt [of "after_call url res"] At_call show ?thesis unfolding st
      by (simp add: potential_def ws)
  next
    case (At_put url)
    have st: "worker_step d i ws =
        (w, s\<lparr>failed_queue := failed_queue s @ [url], threads := (threads s)[i := At_task_done None]\<rparr>)"
      using i At_put by (simp add: worker_step_def ws)
    from wt [of "At_task_done None"] At_put show ?thesis unfolding st by (simp add: potential_def ws)
  next
    case (At_task_done e)
    show ?thesis
    proof (cases "unfinished_tasks s = 0")
      case True
      have st: "worker_step d i ws = (w, s\<lparr>threads := (threads s)[i := Died ValueError]\<rparr>)"
        using i At_task_done True by (simp add: worker_step_def ws)
      from wt [of "Died ValueError"] At_task_done show ?thesis unfolding st
        by (simp add: potential_def ws)
    next
      case False
      let ?pc = "case e of None \<Rightarrow> At_test | Some x \<Rightarrow> Died x"
      have st: "worker_step d i ws =
          (w, s\<lparr>unfinished_tasks := unfinished_tasks s - 1, threads := (threads s)[i := ?pc]\<rparr>)"
        using i At_task_done False by (simp add: worker_step_def ws)
      have "weight ?pc < 2" by (simp split: option.splits)
      with wt [of ?pc] At_task_done show ?thesis unfolding st by (simp add: potential_def ws)
    qed
  next
    case Returned
    with assms show ?thesis by (simp add: can_move_def ws)
  next
    case (Died e)
    with assms show ?thesis by (simp add: can_move_def ws)
  qed
qed

lemma step_potential_le: "potential (worker_step d i ws) \<le> potential ws"
  using moving_step [of i ws d] stuck_step [of i ws d] by (cases "can_move i ws") simp_all

lemma steps_Nil [simp]: "steps d [] ws = ws"
  by (simp add: steps_def)

lemma steps_Cons [simp]: "steps d (i # sched) ws = steps d sched (worker_step d i ws)"
  by (simp add: steps_def)

lemma steps_append: "steps d (xs @ ys) ws = steps d ys (steps d xs ws)"
  by (simp add: steps_def)

lemma steps_potential_le: "potential (steps d sched ws) \<le> potential ws"
proof (induction sched arbitrary: ws)
  case Nil
  show ?case by simp
next
  case (Cons i sched)
  from Cons [of "worker_step d i ws"] step_potential_le [of d i ws] show ?case by simp
qed

text \<open>A sweep in which a thread that can move has its turn lowers the potential.\<close>

lemma sweep_progress:
  "can_move i ws \<Longrightarrow> i \<in> set sweep \<Longrightarrow> potential (steps d sweep ws) < potential ws"
proof (induction sweep arbitrary: ws)
  case Nil
  then show ?case by simp
next
  case (Cons j sweep)
  show ?case
  proof (cases "can_move j ws")
    case True
    from moving_step [OF True, of d] steps_potential_le [of d sweep "worker_step d j ws"]
    show ?thesis by simp
  next
    case False
    with Cons.prems have "i \<in> set sweep" by auto
    from Cons.IH [OF Cons.prems(1) this] stuck_step [OF False, of d] show ?thesis by simp
  qed
qed

lemma worker_step_none_left:
  assumes "none_left ws"
  shows "none_left (worker_step d i ws)"
proof (cases "can_move i ws")
  case False
  from stuck_step [OF this, of d] assms show ?thesis by simp
next
  case True
  obtain w s where ws: "ws = (w, s)" by (cases ws)
  from True have i: "i < length (threads s)" by (simp add: can_move_def ws)
  have upd: "Returned \<notin> set ((threads s)[i := pc])" if "pc \<noteq> Returned" "Returned \<notin> set (threads s)" for pc
    using that set_update_subset_insert [of "threads s" i pc] by auto
  show ?thesis
  proof (cases "threads s ! i")
    case At_test
    with i assms upd [of At_get] show ?thesis by (auto simp: none_left_def worker_step_def ws)
  next
    case At_get
    with True obtain url rest where q: "queue s = url # rest"
      by (cases "queue s") (simp_all add: can_move_def ws)
    with i At_get assms upd [of "At_call url"] show ?thesis
      by (auto simp: none_left_def worker_step_def ws)
  next
    case (At_call url)
    obtain res w1 where df: "download_file url d w = (res, w1)" by (cases "download_file url d w")
    have "after_call url res \<noteq> Returned" by (simp add: after_call_def split: sum.splits bool.splits)
    with i At_call assms df upd [of "after_call url res"] show ?thesis
      by (auto simp: none_left_def worker_step_def ws after_call_def)
  next
    case (At_put url)
    with i assms upd [of "At_task_done None"] show ?thesis
      by (auto simp: none_left_def worker_step_def ws)
  next
    case (At_task_done e)
    have "(case e of None \<Rightarrow> At_test | Some x \<Rightarrow> Died x) \<noteq> Returned" by (simp split: option.splits)
    with i At_task_done assms upd [of "case e of None \<Rightarrow> At_test | Some x \<Rightarrow> Died x"]
      upd [of "Died ValueError"]
    show ?thesis by (auto simp: none_left_def worker_step_def ws)
  next
    case Returned
    with True show ?thesis by (simp add: can_move_def ws)
  next
    case (Died e)
    with True show ?thesis by (simp add: can_move_def ws)
  qed
qed

lemma steps_none_left: "none_left ws \<Longrightarrow> none_left (steps d sched ws)"
  by (induction sched arbitrary: ws) (simp_all add: worker_step_none_left)

lemma start_round_none_left: "none_left (start_round tasks max_threads w)"
  by (simp add: none_left_def start_round_def Let_def)

lemma worker_step_died:
  assumes "\<exists>t\<in>set (threads (snd ws)). is_died t"
  shows "\<exists>t\<in>set (threads (snd (worker_step d i ws))). is_died t"
proof (cases "can_move i ws")
  case False
  from stuck_step [OF this, of d] assms show ?thesis by simp
next
  case True
  obtain w s where ws: "ws = (w, s)" by (cases ws)
  from assms obtain j where j: "j < length (threads s)" "is_died (threads s ! j)"
    by (auto simp: ws in_set_conv_nth)
  from True j have ne: "i \<noteq> j" by (auto simp: can_move_def ws split: pc.splits)
  from worker_step_threads [of d i ws] j
  have len: "j < length (threads (snd (worker_step d i ws)))" by (simp add: ws)
  have "threads (snd (worker_step d i ws)) ! j = threads s ! j"
    using ne by (auto simp: worker_step_def ws split: pc.splits list.splits prod.splits)
  with j len show ?thesis by (metis nth_mem)
qed

lemma steps_died:
  "\<exists>t\<in>set (threads (snd ws)). is_died t \<Longrightarrow> \<exists>t\<in>set (threads (snd (steps d sched ws))). is_died t"
  by (induction sched arbitrary: ws) (simp_all add: worker_step_died)

lemma worker_step_joined:
  "unfinished_tasks (snd ws) = 0 \<Longrightarrow> unfinished_tasks (snd (worker_step d i ws)) = 0"
  by (cases ws) (auto simp: worker_step_def split: pc.splits list.splits prod.splits)

lemma steps_joined:
  "unfinished_tasks (snd ws) = 0 \<Longrightarrow> unfinished_tasks (snd (steps d sched ws)) = 0"
  by (induction sched arbitrary: ws) (simp_all add: worker_step_joined)

lemma join_of_steps:
  "unfinished_tasks (snd (steps d sched ws)) = 0 \<Longrightarrow> \<exists>ws'. join d sched ws = Some ws'"
  by (induction sched arbitrary: ws) simp_all

lemma somebody_busy:
  "0 < sum_list (map busy ts) \<Longrightarrow> \<exists>i<length ts. 0 < busy (ts ! i)"
proof (induction ts)
  case Nil
  then show ?case by simp
next
  case (Cons t ts)
  show ?case
  proof (cases "0 < busy t")
    case True
    then show ?thesis by (intro exI [of _ 0]) simp
  next
    case False
    with Cons.prems have "0 < sum_list (map busy ts)" by simp
    from Cons.IH [OF this] obtain i where "i < length ts" "0 < busy (ts ! i)" by blast
    then show ?thesis by (intro exI [of _ "Suc i"]) simp
  qed
qed

text \<open>
  No deadlock: while tasks are unfinished and no thread has died, some thread can move.
\<close>

lemma somebody_can_move:
  assumes inv: "round_inv before tasks ws" and nl: "none_left ws"
    and un: "unfinished_tasks (snd ws) \<noteq> 0"
    and th: "threads (snd ws) \<noteq> []"
    and alive: "\<forall>t\<in>set (threads (snd ws)). \<not> is_died t"
  shows "\<exists>i<length (threads (snd ws)). can_move i ws"
proof -
  obtain w s where ws: "ws = (w, s)" by (cases ws)
  from inv [unfolded ws] obtain cs where
    u: "unfinished_tasks s = length (queue s) + sum_list (map busy (threads s))"
    by (rule round_invE)
  show ?thesis
  proof (cases "0 < sum_list (map busy (threads s))")
    case True
    from somebody_busy [OF this] obtain i where i: "i < length (threads s)" "0 < busy (threads s ! i)"
      by blast
    then have "can_move i ws" by (cases "threads s ! i") (simp_all add: can_move_def ws)
    with i(1) show ?thesis by (auto simp: ws)
  next
    case False
    with u un have q: "queue s \<noteq> []" by (simp add: ws)
    from th have 0: "0 < length (threads s)" by (simp add: ws)
    then have m: "threads s ! 0 \<in> set (threads s)" by simp
    from nl q m have "threads s ! 0 \<noteq> Returned" by (auto simp: none_left_def ws)
    moreover from alive m have "\<not> is_died (threads s ! 0)" by (simp add: ws)
    ultimately have "can_move 0 ws" using q 0
      by (cases "threads s ! 0") (simp_all add: can_move_def ws)
    with 0 show ?thesis by (auto simp: ws)
  qed
qed

text \<open>
  Under sweeps that give every thread a turn, more of them than the potential, the
  counter of unfinished tasks reaches 0 unless a thread dies.
\<close>

lemma fair_run_finishes:
  assumes "round_inv before tasks ws" and "none_left ws" and "threads (snd ws) \<noteq> []"
    and "\<forall>sweep\<in>set sweeps. \<forall>i<length (threads (snd ws)). i \<in> set sweep"
    and "potential ws < length sweeps"
    and "\<forall>t\<in>set (threads (snd (steps d (concat sweeps) ws))). \<not> is_died t"
  shows "unfinished_tasks (snd (steps d (concat sweeps) ws)) = 0"
  using assms
proof (induction sweeps arbitrary: ws)
  case Nil
  then show ?case by simp
next
  case (Cons sweep sweeps)
  let ?ws1 = "steps d sweep ws"
  have run: "steps d (concat (sweep # sweeps)) ws = steps d (concat sweeps) ?ws1"
    by (simp add: steps_append)
  show ?case
  proof (cases "unfinished_tasks (snd ws) = 0")
    case True
    then show ?thesis by (rule steps_joined)
  next
    case False
    from Cons.prems(6) steps_died [of ws d "concat (sweep # sweeps)"]
    have alive: "\<forall>t\<in>set (threads (snd ws)). \<not> is_died t" by blast
    from somebody_can_move [OF Cons.prems(1,2) False Cons.prems(3) alive]
    obtain i where i: "i < length (threads (snd ws))" "can_move i ws" by blast
    with Cons.prems(4) have "i \<in> set sweep" by simp
    from sweep_progress [OF i(2) this, of d] Cons.prems(5)
    have p: "potential ?ws1 < length sweeps" by simp
    have len: "length (threads (snd ?ws1)) = length (threads (snd ws))" by (rule steps_threads)
    with Cons.prems(3) have th: "threads (snd ?ws1) \<noteq> []" by auto
    from Cons.prems(4) len
    have fair: "\<forall>sweep\<in>set sweeps. \<forall>i<length (threads (snd ?ws1)). i \<in> set sweep" by simp
    from Cons.prems(6) have alive1: "\<forall>t\<in>set (threads (snd (steps d (concat sweeps) ?ws1))). \<not> is_died t"
      unfolding run .
    from Cons.IH [OF steps_inv [OF Cons.prems(1)] steps_none_left [OF Cons.prems(2)] th fair p alive1]
    show ?thesis unfolding run .
  qed
qed

lemma sum_list_ones: "sum_list (replicate k (Suc 0)) = k"
  by (induction k) simp_all

lemma start_round_potential:
  "potential (start_round tasks max_threads w)
     = 5 * length tasks + nat (min max_threads (int (length tasks)))"
  by (simp add: potential_def start_round_def Let_def sum_list_ones)

text \<open>
  A dispatch round returns under every schedule made of sweeps, each of which gives every
  thread a turn, when there are more sweeps than five for each task and one for each
  thread, at least one thread is asked for, and no thread is dead when the schedule ends.
\<close>

lemma fair_round_returns:
  assumes "1 \<le> max_threads"
    and "\<forall>sweep\<in>set sweeps. \<forall>i<nat (min max_threads (int (length tasks))). i \<in> set sweep"
    and "5 * length tasks + nat (min max_threads (int (length tasks))) < length sweeps"
    and "\<forall>t\<in>set (threads (snd (steps save_dir (concat sweeps) (start_round tasks max_threads w)))).
           \<not> is_died t"
  shows "\<exists>failed w'.
           download_files_in_parallel (concat sweeps) tasks save_dir max_threads w = Some (failed, w')"
proof -
  let ?ws = "start_round tasks max_threads w"
  have len: "length (threads (snd ?ws)) = nat (min max_threads (int (length tasks)))"
    by (simp add: start_round_def Let_def)
  have "unfinished_tasks (snd (steps save_dir (concat sweeps) ?ws)) = 0"
  proof (cases "tasks = []")
    case True
    then have "unfinished_tasks (snd ?ws) = 0" by (simp add: start_round_def Let_def)
    then show ?thesis by (rule steps_joined)
  next
    case False
    with assms(1) len have th: "threads (snd ?ws) \<noteq> []" by (cases tasks) auto
    from assms(2) len have fair: "\<forall>sweep\<in>set sweeps. \<forall>i<length (threads (snd ?ws)). i \<in> set sweep"
      by simp
    from assms(3) have p: "potential ?ws < length sweeps" by (simp add: start_round_potential)
    from fair_run_finishes [OF start_round_inv start_round_none_left th fair p assms(4)]
    show ?thesis .
  qed
  from join_of_steps [OF this] obtain w' s where "join save_dir (concat sweeps) ?ws = Some (w', s)"
    by auto
  then have "download_files_in_parallel (concat sweeps) tasks save_dir max_threads w
      = Some (failed_queue s, w')"
    by (simp add: download_files_in_parallel_def run_round_def)
  then show ?thesis by blast
qed

text \<open>When no thread can move, the state stays as it is and the main thread waits for ever.\<close>

lemma dead_end_steps:
  "\<forall>i. \<not> can_move i ws \<Longrightarrow> steps d sched ws = ws"
  by (induction sched) (simp_all add: stuck_step)

lemma dead_end_join:
  "\<forall>i. \<not> can_move i ws \<Longrightarrow> unfinished_tasks (snd ws) \<noteq> 0 \<Longrightarrow> join d sched ws = None"
  by (induction sched) (simp_all add: stuck_step)

lemma join_append:
  "join d (xs @ ys) ws =
     (case join d xs ws of Some ws' \<Rightarrow> Some ws' | None \<Rightarrow> join d ys (steps d xs ws))"
proof (induction xs arbitrary: ws)
  case Nil
  then show ?case by (cases ys) auto
next
  case (Cons i xs)
  then show ?case by (simp cong: option.case_cong)
qed


lemma dead_thread_no_move: "threads (snd ws) = [Died e] \<Longrightarrow> \<forall>i. \<not> can_move i ws"
  by (auto simp: can_move_def less_Suc_eq)

text \<open>The definitions that evaluate a run on a given world.\<close>

lemmas eval_simps =
  download_files_in_parallel_def run_round_def start_round_def worker_step_def
  download_file_def attempt_def receive_def open_ab_def write_chunk_def
  total_size_def range_headers_def resume_pos_def raise_for_status_def emit_def
  split_last_def path_join_def Let_def

section \<open>The claims about a dispatch round\<close>

text \<open>
  C4, as the code has it. When a dispatch round returns, under any schedule, the list it
  returns is no longer than the task list and holds only URLs of the task list. The round
  has called \<^verbatim>\<open>download_file\<close> once for each task, and the list holds the URL of every
  call that returned \<^verbatim>\<open>False\<close>, once for each such call (as multisets, the list is the
  URLs of the calls that returned \<^verbatim>\<open>False\<close>).
\<close>

theorem failed_list_of_a_round:
  assumes "download_files_in_parallel sched tasks save_dir max_threads w = Some (failed, w')"
  shows "length failed \<le> length tasks
       \<and> set failed \<subseteq> set tasks
       \<and> (\<exists>cs. calls w' = calls w @ cs
              \<and> mset (map fst cs) = mset tasks
              \<and> mset failed = mset (map fst (filter (\<lambda>c. snd c = Inr False) cs)))"
proof -
  from dispatch_finished [OF assms] obtain cs where
    c: "calls w' = calls w @ cs" and t: "mset (map fst cs) = mset tasks"
    and f: "mset failed = mset (failures cs)"
    by blast
  from failures_sub [of cs] f t have sub: "mset failed \<subseteq># mset tasks" by simp
  from size_mset_mono [OF sub] have 1: "length failed \<le> length tasks" by simp
  from set_mset_mono [OF sub] have 2: "set failed \<subseteq> set tasks" by simp
  from c t f have "calls w' = calls w @ cs
              \<and> mset (map fst cs) = mset tasks
              \<and> mset failed = mset (map fst (filter (\<lambda>c. snd c = Inr False) cs))"
    by (simp add: failures_def)
  then have 3: "\<exists>cs. calls w' = calls w @ cs
              \<and> mset (map fst cs) = mset tasks
              \<and> mset failed = mset (map fst (filter (\<lambda>c. snd c = Inr False) cs))"
    by (rule exI)
  from 1 2 3 show ?thesis by (intro conjI)
qed

theorem failed_list_of_a_round_witness:
  "\<exists>w'. download_files_in_parallel [0, 1, 0, 1, 0, 1, 0, 1, 0]
           [''http://h/x/a'', ''http://h/x/b''] ''d'' 2 w_mixed = Some ([''http://h/x/a''], w')
       \<and> calls w' = [(''http://h/x/a'', Inr False), (''http://h/x/b'', Inr True)]
       \<and> length [''http://h/x/a''] \<le> length [''http://h/x/a'', ''http://h/x/b'']
       \<and> (\<exists>cs. calls w' = calls w_mixed @ cs
              \<and> mset (map fst cs) = mset [''http://h/x/a'', ''http://h/x/b'']
              \<and> mset [''http://h/x/a''] = mset (map fst (filter (\<lambda>c. snd c = Inr False) cs)))"
proof -
  let ?r = "download_files_in_parallel [0, 1, 0, 1, 0, 1, 0, 1, 0]
           [''http://h/x/a'', ''http://h/x/b''] ''d'' 2 w_mixed"
  have "map_option fst ?r = Some [''http://h/x/a'']"
    by (simp add: eval_simps w_mixed_def blank_def whole_def)
  then obtain w' where r: "?r = Some ([''http://h/x/a''], w')" by (cases ?r) auto
  have "map_option (\<lambda>r. calls (snd r)) ?r = Some [(''http://h/x/a'', Inr False), (''http://h/x/b'', Inr True)]"
    by (simp add: eval_simps w_mixed_def blank_def whole_def)
  with r have c: "calls w' = [(''http://h/x/a'', Inr False), (''http://h/x/b'', Inr True)]" by simp
  from failed_list_of_a_round [OF r] r c show ?thesis by (intro exI [of _ w']) simp
qed

text \<open>
  C4 as stated fails for a transfer that fails with an exception. One task, one thread, and
  a directory that cannot be made: the call ends with \<^verbatim>\<open>OSError\<close>, the round returns,
  and the list it returns is empty.
\<close>

theorem crashed_transfer_is_not_reported:
  "map_option (\<lambda>r. (fst r, calls (snd r)))
     (download_files_in_parallel [0, 0, 0, 0] [''http://h/x/a''] ''d'' 1 w_denied)
   = Some ([], [(''http://h/x/a'', Inl OSError)])"
  by (simp add: eval_simps w_denied_def blank_def)

text \<open>
  C9, as the code has it. For any number of threads and any schedule: at no moment of a
  round has \<^verbatim>\<open>download_file\<close> been called more often for a URL than the task list holds
  it, and when the round returns it has been called exactly once for each task. With at
  least one thread asked for, the round does return under every schedule of sweeps that
  give each thread a turn, once there are more sweeps than five for each task and one for
  each thread, unless a thread is dead at the end.
\<close>

theorem one_call_per_task:
  "(\<exists>cs. calls (fst (steps save_dir sched (start_round tasks max_threads w))) = calls w @ cs
        \<and> mset (map fst cs) \<subseteq># mset tasks)
   \<and> (\<forall>failed w'.
         download_files_in_parallel sched tasks save_dir max_threads w = Some (failed, w') \<longrightarrow>
         (\<exists>cs. calls w' = calls w @ cs \<and> mset (map fst cs) = mset tasks))
   \<and> (\<forall>sweeps.
         1 \<le> max_threads
       \<and> (\<forall>sweep\<in>set sweeps. \<forall>i<nat (min max_threads (int (length tasks))). i \<in> set sweep)
       \<and> 5 * length tasks + nat (min max_threads (int (length tasks))) < length sweeps
       \<and> (\<forall>t\<in>set (threads (snd (steps save_dir (concat sweeps) (start_round tasks max_threads w)))).
             \<not> is_died t)
       \<longrightarrow> (\<exists>failed w'.
             download_files_in_parallel (concat sweeps) tasks save_dir max_threads w
               = Some (failed, w')))"
proof (intro conjI)
  obtain w1 s1 where ws: "steps save_dir sched (start_round tasks max_threads w) = (w1, s1)"
    by (cases "steps save_dir sched (start_round tasks max_threads w)")
  from steps_inv [OF start_round_inv, where d=save_dir and sched=sched and tasks=tasks
      and max_threads1=max_threads and w1=w] ws
  have "round_inv (calls w) tasks (w1, s1)" by simp
  from round_unfinished [OF this] ws
  show "\<exists>cs. calls (fst (steps save_dir sched (start_round tasks max_threads w))) = calls w @ cs
        \<and> mset (map fst cs) \<subseteq># mset tasks" by simp
  show "\<forall>failed w'.
         download_files_in_parallel sched tasks save_dir max_threads w = Some (failed, w') \<longrightarrow>
         (\<exists>cs. calls w' = calls w @ cs \<and> mset (map fst cs) = mset tasks)"
  proof (intro allI impI)
    fix failed w'
    assume "download_files_in_parallel sched tasks save_dir max_threads w = Some (failed, w')"
    from dispatch_finished [OF this]
    show "\<exists>cs. calls w' = calls w @ cs \<and> mset (map fst cs) = mset tasks" by blast
  qed
  show "\<forall>sweeps.
         1 \<le> max_threads
       \<and> (\<forall>sweep\<in>set sweeps. \<forall>i<nat (min max_threads (int (length tasks))). i \<in> set sweep)
       \<and> 5 * length tasks + nat (min max_threads (int (length tasks))) < length sweeps
       \<and> (\<forall>t\<in>set (threads (snd (steps save_dir (concat sweeps) (start_round tasks max_threads w)))).
             \<not> is_died t)
       \<longrightarrow> (\<exists>failed w'.
             download_files_in_parallel (concat sweeps) tasks save_dir max_threads w
               = Some (failed, w'))"
    using fair_round_returns by blast
qed

theorem one_call_per_task_witness:
  "(1::int) \<le> 2
   \<and> list_all (\<lambda>sweep. 0 \<in> set sweep \<and> 1 \<in> set sweep) thirteen_sweeps
   \<and> 5 * length [''http://h/x/a'', ''http://h/x/b''] + 2 < length thirteen_sweeps
   \<and> threads (snd (steps ''d'' (concat thirteen_sweeps)
            (start_round [''http://h/x/a'', ''http://h/x/b''] 2 w_mixed))) = [Returned, Returned]
   \<and> (\<exists>failed w' cs.
         download_files_in_parallel (concat thirteen_sweeps)
           [''http://h/x/a'', ''http://h/x/b''] ''d'' 2 w_mixed = Some (failed, w')
       \<and> calls w' = calls w_mixed @ cs
       \<and> mset (map fst cs) = mset [''http://h/x/a'', ''http://h/x/b''])"
proof -
  let ?tasks = "[''http://h/x/a'', ''http://h/x/b'']"
  note t = one_call_per_task [of "''d''" "concat thirteen_sweeps" ?tasks 2 w_mixed]
  have n: "nat (min 2 (int (length ?tasks))) = 2" by simp
  have 1: "\<forall>sweep\<in>set thirteen_sweeps. \<forall>i<2. i \<in> set sweep"
    by (auto simp: thirteen_sweeps_def less_Suc_eq numeral_2_eq_2)
  have 2: "5 * length ?tasks + 2 < length thirteen_sweeps"
    by (simp add: thirteen_sweeps_def)
  have 0: "list_all (\<lambda>sweep. 0 \<in> set sweep \<and> 1 \<in> set sweep) thirteen_sweeps"
    by (simp add: thirteen_sweeps_def)
  have th: "threads (snd (steps ''d'' (concat thirteen_sweeps) (start_round ?tasks 2 w_mixed)))
      = [Returned, Returned]"
    by (simp add: eval_simps thirteen_sweeps_def w_mixed_def blank_def whole_def numeral_2_eq_2)
  then have 3: "\<forall>t\<in>set (threads (snd (steps ''d'' (concat thirteen_sweeps)
            (start_round ?tasks 2 w_mixed)))). \<not> is_died t" by simp
  from t [THEN conjunct2, THEN conjunct2, rule_format, of thirteen_sweeps] 1 2 3 n
  obtain failed w' where r: "download_files_in_parallel (concat thirteen_sweeps) ?tasks ''d'' 2 w_mixed
      = Some (failed, w')" by auto
  from t [THEN conjunct2, THEN conjunct1, rule_format, OF r]
  obtain cs where "calls w' = calls w_mixed @ cs" "mset (map fst cs) = mset ?tasks" by blast
  with r have "\<exists>failed w' cs.
         download_files_in_parallel (concat thirteen_sweeps) ?tasks ''d'' 2 w_mixed = Some (failed, w')
       \<and> calls w' = calls w_mixed @ cs \<and> mset (map fst cs) = mset ?tasks" by blast
  with 0 2 th show ?thesis by simp
qed

text \<open>
  C9 as stated fails when a worker dies. Two tasks, one thread, and a directory that cannot
  be made: the call for the first task ends with \<^verbatim>\<open>OSError\<close>, which ends the thread
  after \<^verbatim>\<open>task_done\<close>; the second task stays in the queue, \<^verbatim>\<open>download_file\<close> is
  never called for it, and the round never returns, however long the schedule goes on.
\<close>

theorem a_dead_worker_skips_the_rest:
  "\<forall>rest.
     download_files_in_parallel ([0, 0, 0, 0] @ rest) [''http://h/x/a'', ''http://h/x/b''] ''d'' 1 w_denied
       = None
   \<and> threads (snd (steps ''d'' ([0, 0, 0, 0] @ rest)
        (start_round [''http://h/x/a'', ''http://h/x/b''] 1 w_denied))) = [Died OSError]
   \<and> queue (snd (steps ''d'' ([0, 0, 0, 0] @ rest)
        (start_round [''http://h/x/a'', ''http://h/x/b''] 1 w_denied))) = [''http://h/x/b'']
   \<and> calls (fst (steps ''d'' ([0, 0, 0, 0] @ rest)
        (start_round [''http://h/x/a'', ''http://h/x/b''] 1 w_denied))) = [(''http://h/x/a'', Inl OSError)]"
proof
  fix rest
  let ?start = "start_round [''http://h/x/a'', ''http://h/x/b''] 1 w_denied"
  let ?ws = "steps ''d'' [0, 0, 0, 0] ?start"
  have th: "threads (snd ?ws) = [Died OSError]"
    and qu: "queue (snd ?ws) = [''http://h/x/b'']"
    and un: "unfinished_tasks (snd ?ws) = 1"
    and ca: "calls (fst ?ws) = [(''http://h/x/a'', Inl OSError)]"
    by (simp_all add: eval_simps w_denied_def blank_def)
  have j: "join ''d'' [0, 0, 0, 0] ?start = None"
    by (simp add: eval_simps w_denied_def blank_def)
  from dead_thread_no_move [OF th] have stuck: "\<forall>i. \<not> can_move i ?ws" .
  from un have "unfinished_tasks (snd ?ws) \<noteq> 0" by simp
  from dead_end_join [OF stuck this] have "join ''d'' rest ?ws = None" .
  then have ja: "join ''d'' ([0, 0, 0, 0] @ rest) ?start = None"
    unfolding join_append j by simp
  have 1: "download_files_in_parallel ([0, 0, 0, 0] @ rest)
      [''http://h/x/a'', ''http://h/x/b''] ''d'' 1 w_denied = None"
    unfolding download_files_in_parallel_def run_round_def ja by simp
  from dead_end_steps [OF stuck] have "steps ''d'' ([0, 0, 0, 0] @ rest) ?start = ?ws"
    by (simp add: steps_append)
  with 1 th qu ca
  show "download_files_in_parallel ([0, 0, 0, 0] @ rest) [''http://h/x/a'', ''http://h/x/b''] ''d'' 1 w_denied
       = None
   \<and> threads (snd (steps ''d'' ([0, 0, 0, 0] @ rest) ?start)) = [Died OSError]
   \<and> queue (snd (steps ''d'' ([0, 0, 0, 0] @ rest) ?start)) = [''http://h/x/b'']
   \<and> calls (fst (steps ''d'' ([0, 0, 0, 0] @ rest) ?start)) = [(''http://h/x/a'', Inl OSError)]"
    by simp
qed

text \<open>
  C6, as the code has it. The number of worker threads of a round is
  \<open>min(max_threads, len(urls))\<close> when that is not negative and 0 otherwise, at every moment
  of the round; with 10 requested and 3 tasks it is 3.
\<close>

theorem workers_started:
  "length (threads (snd (steps save_dir sched (start_round tasks max_threads w))))
     = nat (min max_threads (int (length tasks)))
   \<and> (0 \<le> max_threads \<longrightarrow>
        int (length (threads (snd (steps save_dir sched (start_round tasks max_threads w)))))
          = min max_threads (int (length tasks)))
   \<and> (max_threads = 10 \<and> length tasks = 3 \<longrightarrow>
        length (threads (snd (steps save_dir sched (start_round tasks max_threads w)))) = 3)"
  unfolding steps_threads by (simp add: start_round_def Let_def)

theorem workers_started_witness:
  "(0::int) \<le> 10 \<and> length [''http://h/x/a'', ''http://h/x/b'', ''http://h/x/c''] = 3
   \<and> length (threads (snd (steps ''d'' [0, 1, 2]
        (start_round [''http://h/x/a'', ''http://h/x/b'', ''http://h/x/c''] 10 blank)))) = 3"
  using workers_started [of "''d''" "[0, 1, 2]" "[''http://h/x/a'', ''http://h/x/b'', ''http://h/x/c'']" 10 blank]
  by simp

text \<open>
  C6 as stated fails for a negative thread count, which \<^verbatim>\<open>--threads\<close> accepts:
  \<^verbatim>\<open>range(-1)\<close> is empty, so no thread is started, and 0 is not \<open>min(-1, 1)\<close>.
\<close>

theorem negative_thread_count_starts_none:
  "int (length (threads (snd (start_round [''http://h/x/a''] (- 1) blank))))
     \<noteq> min (- 1) (int (length [''http://h/x/a'']))"
  by (simp add: start_round_def Let_def)

section \<open>The claims about the retry loop\<close>




text \<open>
  C5 does not hold of the code (the comment on line 152 says what the claim says). Three
  URLs, of which the third fails in every round: the first retry round begins right after
  the first round, with no sleep between them, and a sleep follows every retry round, the
  last one as well.
\<close>

theorem no_sleep_before_the_first_retry:
  "map_option (\<lambda>r. (fst r, trace (snd r)))
     (run round_robin [''http://h/x/a'', ''http://h/x/b'', ''http://h/x/c''] ''d'' 2 w_third_fails) =
   Some ([''http://h/x/c''],
         [Print_threads 2, Print_done ''a'', Print_done ''b'', Print_error ''c'',
          Print_retry 1 1, Print_threads 1, Print_error ''c'', Sleep 2,
          Print_retry 2 1, Print_threads 1, Print_error ''c'', Sleep 2,
          Print_retry 3 1, Print_threads 1, Print_error ''c'', Sleep 2])"
  by (simp add: eval_simps run_def w_third_fails_def blank_def whole_def round_robin_def)

end
